theory Spec2Isabelle
  imports Complex_Main
begin

section \<open>Nearest-neighbour classification: the vote, the posterior and the prediction\<close>

text \<open>
  A shallow embedding of \<^verbatim>\<open>sklearn/neighbors/classification.py\<close>: the two
  methods \<^verbatim>\<open>KNeighborsClassifier.predict_proba\<close> / \<^verbatim>\<open>predict\<close> and
  \<^verbatim>\<open>RadiusNeighborsClassifier.predict\<close>.

  The neighbour search (\<^verbatim>\<open>kneighbors\<close>, \<^verbatim>\<open>radius_neighbors\<close>), the weight
  function (\<^verbatim>\<open>_get_weights\<close>) and the prior (\<^verbatim>\<open>_get_class_prior\<close>) live in
  other modules; what they return is an input of the model.
\<close>

subsection \<open>Floating-point values\<close>

text \<open>
  A NumPy \<^verbatim>\<open>float64\<close> is a finite number, one of the two infinities, or NaN.
  Finite arithmetic is exact here (a real number): rounding, overflow and the sign of
  zero are not modelled. What is modelled is what the source relies on or runs into:
  a division by zero does not raise but yields an infinity or NaN, NaN propagates, and
  every comparison with NaN is false.
\<close>

datatype npfloat = Fin real | PInf | NInf | NaN

fun signed_inf :: "real \<Rightarrow> npfloat" where
  "signed_inf s = (if s = 0 then NaN else if 0 < s then PInf else NInf)"

fun fsign :: "npfloat \<Rightarrow> real" where
  "fsign (Fin a) = sgn a"
| "fsign PInf = 1"
| "fsign NInf = - 1"
| "fsign NaN = 0"

fun fadd :: "npfloat \<Rightarrow> npfloat \<Rightarrow> npfloat" where
  "fadd NaN y = NaN"
| "fadd x NaN = NaN"
| "fadd (Fin a) (Fin b) = Fin (a + b)"
| "fadd PInf NInf = NaN"
| "fadd NInf PInf = NaN"
| "fadd PInf y = PInf"
| "fadd x PInf = PInf"
| "fadd NInf y = NInf"
| "fadd x NInf = NInf"

fun fmul :: "npfloat \<Rightarrow> npfloat \<Rightarrow> npfloat" where
  "fmul NaN y = NaN"
| "fmul x NaN = NaN"
| "fmul (Fin a) (Fin b) = Fin (a * b)"
| "fmul x y = signed_inf (fsign x * fsign y)"

fun fdiv :: "npfloat \<Rightarrow> npfloat \<Rightarrow> npfloat" where
  "fdiv NaN y = NaN"
| "fdiv x NaN = NaN"
| "fdiv (Fin a) (Fin b) = (if b = 0 then signed_inf (sgn a) else Fin (a / b))"
| "fdiv (Fin a) y = Fin 0"
| "fdiv x (Fin b) = signed_inf (fsign x * (if b < 0 then - 1 else 1))"
| "fdiv x y = NaN"

text \<open>\<^verbatim>\<open>x <= y\<close> on floats: false as soon as one side is NaN.\<close>

fun fle :: "npfloat \<Rightarrow> npfloat \<Rightarrow> bool" where
  "fle NaN y = False"
| "fle x NaN = False"
| "fle (Fin a) (Fin b) = (a \<le> b)"
| "fle NInf y = True"
| "fle x PInf = True"
| "fle x y = False"

text \<open>\<^verbatim>\<open>row.sum()\<close>: the entries added up from 0.0.\<close>

definition fsum :: "npfloat list \<Rightarrow> npfloat" where
  "fsum xs = foldl fadd (Fin 0) xs"

subsection \<open>Errors and indexing\<close>

text \<open>
  \<open>NoNeighborsError\<close> is the \<^verbatim>\<open>ValueError('no neighbors found for a test sample, ...')\<close>
  that \<^verbatim>\<open>RadiusNeighborsClassifier.predict\<close> raises itself; \<open>ValueError\<close> and
  \<open>IndexError\<close> are the ones NumPy raises (shapes that do not broadcast, an empty
  argument of \<^verbatim>\<open>bincount\<close> or \<^verbatim>\<open>argmax\<close>, a negative size, an index out of bounds).
\<close>

datatype error = NoNeighborsError | ValueError | IndexError

fun mapE :: "('a \<Rightarrow> error + 'b) \<Rightarrow> 'a list \<Rightarrow> error + 'b list" where
  "mapE f [] = Inr []"
| "mapE f (x # xs) =
     (case f x of
        Inl e \<Rightarrow> Inl e
      | Inr y \<Rightarrow> (case mapE f xs of Inl e \<Rightarrow> Inl e | Inr ys \<Rightarrow> Inr (y # ys)))"

text \<open>\<^verbatim>\<open>a[i]\<close> for an index that is not negative.\<close>

definition take_at :: "'a list \<Rightarrow> nat \<Rightarrow> error + 'a" where
  "take_at xs i = (if i < length xs then Inr (xs ! i) else Inl IndexError)"

text \<open>\<^verbatim>\<open>a[ind]\<close> for an array of indices: \<^verbatim>\<open>self._y[ind]\<close>, \<^verbatim>\<open>self._classes[...]\<close>.\<close>

definition gather :: "'a list \<Rightarrow> nat list \<Rightarrow> error + 'a list" where
  "gather xs ind = mapE (take_at xs) ind"

text \<open>\<^verbatim>\<open>M[:, i]\<close> of a matrix held as the list of its rows.\<close>

definition column :: "nat \<Rightarrow> 'a list list \<Rightarrow> error + 'a list" where
  "column i M = mapE (\<lambda>row. take_at row i) M"

text \<open>\<^verbatim>\<open>M.shape[1]\<close> of a matrix held as the list of its rows (0 when it has no row).\<close>

fun ncols :: "'a list list \<Rightarrow> nat" where
  "ncols [] = 0"
| "ncols (row # M) = length row"

subsection \<open>NumPy operations the source calls\<close>

text \<open>
  \<^verbatim>\<open>np.bincount(x)\<close>: \<^verbatim>\<open>out[v]\<close> counts the occurrences of \<^verbatim>\<open>v\<close> in \<^verbatim>\<open>x\<close>, for
  \<^verbatim>\<open>v\<close> from 0 to \<^verbatim>\<open>max(x)\<close>. The entries of \<^verbatim>\<open>x\<close> are not negative (type
  \<open>nat\<close>). The NumPy releases the source supports (before 1.6, see its comment on
  \<^verbatim>\<open>minlength\<close>) refuse an empty \<^verbatim>\<open>x\<close> with a ValueError.
\<close>

definition amax :: "nat list \<Rightarrow> nat" where
  "amax xs = fold max xs 0"

definition add_at :: "npfloat list \<Rightarrow> nat \<Rightarrow> npfloat \<Rightarrow> npfloat list" where
  "add_at out l w = out[l := fadd (out ! l) w]"

definition np_bincount :: "nat list \<Rightarrow> error + nat list" where
  "np_bincount xs =
     (if xs = [] then Inl ValueError
      else Inr (fold (\<lambda>l out. out[l := Suc (out ! l)]) xs (replicate (Suc (amax xs)) 0)))"

text \<open>
  \<^verbatim>\<open>np.bincount(x, weights)\<close>: \<^verbatim>\<open>out[x[j]] += weights[j]\<close> for every position
  \<^verbatim>\<open>j\<close> in turn, from zeros of length \<^verbatim>\<open>max(x) + 1\<close>; the two arguments must have the
  same length.
\<close>

definition np_bincount_w :: "nat list \<Rightarrow> npfloat list \<Rightarrow> error + npfloat list" where
  "np_bincount_w xs ws =
     (if xs = [] \<or> length ws \<noteq> length xs then Inl ValueError
      else Inr (fold (\<lambda>(l, w) out. add_at out l w) (zip xs ws)
                  (replicate (Suc (amax xs)) (Fin 0))))"

text \<open>
  \<^verbatim>\<open>row.argmax()\<close>: NumPy's loop keeps the first entry and replaces it by a later one
  only when \<^verbatim>\<open>!(x <= max)\<close>; it stops at the first NaN. An empty row is a ValueError.
\<close>

fun argmax_loop :: "npfloat \<Rightarrow> nat \<Rightarrow> nat \<Rightarrow> npfloat list \<Rightarrow> nat" where
  "argmax_loop mp best i [] = best"
| "argmax_loop mp best i (x # xs) =
     (if fle x mp then argmax_loop mp best (Suc i) xs
      else if x = NaN then i
      else argmax_loop x i (Suc i) xs)"

fun np_argmax :: "npfloat list \<Rightarrow> error + nat" where
  "np_argmax [] = Inl ValueError"
| "np_argmax (x # xs) = Inr (if x = NaN then 0 else argmax_loop x 0 1 xs)"

text \<open>
  Broadcasting a matrix with \<open>c\<close> columns against a vector of length \<open>m\<close>: the shapes
  must agree unless one of them is 1, which is stretched.
\<close>

definition np_broadcast :: "nat \<Rightarrow> nat \<Rightarrow> error + nat" where
  "np_broadcast c m =
     (if c = m then Inr c else if m = 1 then Inr c else if c = 1 then Inr m
      else Inl ValueError)"

definition stretch :: "nat \<Rightarrow> 'a list \<Rightarrow> 'a list" where
  "stretch n xs = (if length xs = n then xs else replicate n (hd xs))"

text \<open>\<^verbatim>\<open>M op v\<close> for a matrix of \<open>c\<close> columns and a vector: the new width and rows.\<close>

definition rows_op ::
  "(npfloat \<Rightarrow> npfloat \<Rightarrow> npfloat) \<Rightarrow> nat \<Rightarrow> npfloat list list \<Rightarrow> npfloat list
     \<Rightarrow> error + nat \<times> npfloat list list" where
  "rows_op f c M v =
     (case np_broadcast c (length v) of
        Inl e \<Rightarrow> Inl e
      | Inr c' \<Rightarrow> Inr (c', map (\<lambda>row. map2 f (stretch c' row) (stretch c' v)) M))"

subsection \<open>The fitted model and the result of a neighbour query\<close>

text \<open>
  \<open>self_y\<close> is \<^verbatim>\<open>self._y\<close>, the training labels as indices into
  \<open>self_classes\<close> (\<^verbatim>\<open>self._classes\<close>); \<open>class_prior\<close> is the vector that
  \<^verbatim>\<open>_get_class_prior(self._y, self.class_prior)\<close> returns; \<open>self_outlier_label\<close> is
  \<^verbatim>\<open>self.outlier_label\<close> (\<open>None\<close> when it is not given), read by the radius
  classifier only.
\<close>

record fitted =
  self_y :: "nat list"
  self_classes :: "int list"
  class_prior :: "npfloat list"
  self_outlier_label :: "int option"

text \<open>
  \<open>neigh_dist\<close> and \<open>neigh_ind\<close> are what \<^verbatim>\<open>kneighbors(X)\<close> or
  \<^verbatim>\<open>radius_neighbors(X)\<close> returns, one row for each row of \<^verbatim>\<open>X\<close>;
  \<open>get_weights\<close> is what \<^verbatim>\<open>_get_weights(neigh_dist, self.weights)\<close> returns
  (\<open>None\<close> for uniform weights).
\<close>

record query =
  neigh_dist :: "real list list"
  neigh_ind :: "nat list list"
  get_weights :: "npfloat list list option"

subsection \<open>The posterior (lines 189--196 and 368--375, the same text twice)\<close>

text \<open>
  \<^verbatim>\<open>class_count = np.bincount(self._y)\<close>,
  \<^verbatim>\<open>probabilities = (probabilities / class_count) * class_prior\<close>,
  \<^verbatim>\<open>probabilities = (probabilities.T / probabilities.sum(axis=1)).T\<close>,
  on a matrix of \<open>c\<close> columns. The result is the matrix with its width.
\<close>

definition normalize_row :: "npfloat list \<Rightarrow> npfloat list" where
  "normalize_row row = map (\<lambda>x. fdiv x (fsum row)) row"

definition posterior ::
  "nat list \<Rightarrow> npfloat list \<Rightarrow> nat \<Rightarrow> npfloat list list \<Rightarrow> error + nat \<times> npfloat list list" where
  "posterior y prior c votes =
     (case np_bincount y of
        Inl e \<Rightarrow> Inl e
      | Inr class_count \<Rightarrow>
          (case rows_op fdiv c votes (map (\<lambda>k. Fin (real k)) class_count) of
             Inl e \<Rightarrow> Inl e
           | Inr (c1, divided) \<Rightarrow>
               (case rows_op fmul c1 divided prior of
                  Inl e \<Rightarrow> Inl e
                | Inr (c2, unnormalized) \<Rightarrow> Inr (c2, map normalize_row unnormalized))))"

text \<open>
  \<^verbatim>\<open>self._classes[probabilities.argmax(axis=1)].astype(np.int)\<close>: the classes are
  integers already.
\<close>

definition argmax_classes :: "int list \<Rightarrow> nat \<times> npfloat list list \<Rightarrow> error + int list" where
  "argmax_classes cls cP =
     (if fst cP = 0 then Inl ValueError
      else (case mapE np_argmax (snd cP) of
              Inl e \<Rightarrow> Inl e
            | Inr best \<Rightarrow> gather cls best))"

subsection \<open>KNeighborsClassifier\<close>

text \<open>
  One round of the loop at line 186, for column \<open>i\<close> of \<^verbatim>\<open>pred_indices\<close>:
  \<^verbatim>\<open>probabilities[all_rows, idx] += weights[:, i]\<close>. The read of
  \<^verbatim>\<open>probabilities[all_rows, idx]\<close> comes first (an IndexError for a label outside the
  \<open>c\<close> columns), then \<^verbatim>\<open>weights[:, i]\<close>, then the sum, which broadcasts a single
  weight over all rows. No two of the written cells are the same: each is in a row of
  its own.
\<close>

definition add_column ::
  "nat \<Rightarrow> nat \<Rightarrow> nat list list \<Rightarrow> npfloat list list \<Rightarrow> npfloat list list
     \<Rightarrow> error + npfloat list list" where
  "add_column c i pred_indices weights P =
     (case column i pred_indices of
        Inl e \<Rightarrow> Inl e
      | Inr idx \<Rightarrow>
          if \<not> list_all (\<lambda>l. l < c) idx then Inl IndexError
          else (case column i weights of
                  Inl e \<Rightarrow> Inl e
                | Inr wcol \<Rightarrow>
                    if length wcol \<noteq> length P \<and> length wcol \<noteq> 1 then Inl ValueError
                    else Inr (map (\<lambda>(row, l, w). add_at row l w)
                                (zip P (zip idx (stretch (length P) wcol))))))"

fun vote_loop ::
  "nat \<Rightarrow> nat list list \<Rightarrow> npfloat list list \<Rightarrow> nat list \<Rightarrow> npfloat list list
     \<Rightarrow> error + npfloat list list" where
  "vote_loop c pred_indices weights [] P = Inr P"
| "vote_loop c pred_indices weights (i # is) P =
     (case add_column c i pred_indices weights P of
        Inl e \<Rightarrow> Inl e
      | Inr P' \<Rightarrow> vote_loop c pred_indices weights is P')"

text \<open>
  Lines 176--179: the weights, ones of the shape of \<^verbatim>\<open>pred_indices\<close> when
  \<^verbatim>\<open>_get_weights\<close> returned \<^verbatim>\<open>None\<close>.
\<close>

definition knn_weights :: "npfloat list list option \<Rightarrow> nat list list \<Rightarrow> npfloat list list" where
  "knn_weights w pred_indices =
     (case w of None \<Rightarrow> map (map (\<lambda>l. Fin 1)) pred_indices | Some ws \<Rightarrow> ws)"

text \<open>
  Lines 181--187: the vote matrix of \<open>c\<close> columns, from zeros, one round of the loop
  for each column of \<^verbatim>\<open>pred_indices\<close>.
\<close>

definition knn_votes ::
  "nat \<Rightarrow> npfloat list list \<Rightarrow> nat list list \<Rightarrow> error + npfloat list list" where
  "knn_votes c weights pred_indices =
     vote_loop c pred_indices weights [0..<ncols pred_indices]
       (replicate (length pred_indices) (replicate c (Fin 0)))"

definition KNeighborsClassifier_predict_proba ::
  "fitted \<Rightarrow> query \<Rightarrow> error + nat \<times> npfloat list list" where
  "KNeighborsClassifier_predict_proba m q =
     (case mapE (gather (self_y m)) (neigh_ind q) of
        Inl e \<Rightarrow> Inl e
      | Inr pred_indices \<Rightarrow>
          (case knn_votes (length (self_classes m))
                  (knn_weights (get_weights q) pred_indices) pred_indices of
             Inl e \<Rightarrow> Inl e
           | Inr votes \<Rightarrow>
               posterior (self_y m) (class_prior m) (length (self_classes m)) votes))"

definition KNeighborsClassifier_predict :: "fitted \<Rightarrow> query \<Rightarrow> error + int list" where
  "KNeighborsClassifier_predict m q =
     (case KNeighborsClassifier_predict_proba m q of
        Inl e \<Rightarrow> Inl e
      | Inr probabilities \<Rightarrow> argmax_classes (self_classes m) probabilities)"

subsection \<open>RadiusNeighborsClassifier\<close>

text \<open>\<^verbatim>\<open>if self.outlier_label:\<close> is Python's truth test: \<^verbatim>\<open>None\<close> and 0 are false.\<close>

fun truthy :: "int option \<Rightarrow> bool" where
  "truthy None = False"
| "truthy (Some l) = (l \<noteq> 0)"

text \<open>Lines 329--344: the rows without a neighbour, or the error.\<close>

definition radius_outliers :: "int option \<Rightarrow> nat list list \<Rightarrow> error + nat list" where
  "radius_outliers outlier pred_labels =
     (if truthy outlier
      then Inr (filter (\<lambda>i. length (pred_labels ! i) < 1) [0..<length pred_labels])
      else if list_ex (\<lambda>pl. length pl < 1) pred_labels then Inl NoNeighborsError
      else Inr [])"

text \<open>
  Lines 352--366: the loop over the rows. A row without a neighbour is skipped and stays
  zero; any other row is \<^verbatim>\<open>np.bincount(pi, weights[i])\<close> followed by
  \<^verbatim>\<open>np.zeros(c - unpadded.shape[0])\<close>, whose size must not be negative.
\<close>

definition radius_vote_row ::
  "nat \<Rightarrow> npfloat list list \<Rightarrow> nat \<times> nat list \<Rightarrow> error + npfloat list" where
  "radius_vote_row c weights ip =
     (if length (snd ip) < 1 then Inr (replicate c (Fin 0))
      else (case take_at weights (fst ip) of
              Inl e \<Rightarrow> Inl e
            | Inr w \<Rightarrow>
                (case np_bincount_w (snd ip) w of
                   Inl e \<Rightarrow> Inl e
                 | Inr unpadded_probs \<Rightarrow>
                     if c < length unpadded_probs then Inl ValueError
                     else Inr (unpadded_probs @ replicate (c - length unpadded_probs) (Fin 0)))))"

definition radius_votes ::
  "nat \<Rightarrow> npfloat list list \<Rightarrow> nat list list \<Rightarrow> error + npfloat list list" where
  "radius_votes c weights pred_labels = mapE (radius_vote_row c weights) (enumerate 0 pred_labels)"

text \<open>Lines 346--350: the weights, rows of ones as long as the rows of \<^verbatim>\<open>neigh_dist\<close> by default.\<close>

definition radius_weights :: "query \<Rightarrow> npfloat list list" where
  "radius_weights q =
     (case get_weights q of
        None \<Rightarrow> map (\<lambda>row. replicate (length row) (Fin 1)) (neigh_dist q)
      | Some ws \<Rightarrow> ws)"

text \<open>
  Lines 346--375, after the check for outliers has passed: the matrix
  \<^verbatim>\<open>probabilities\<close> as it stands at line 375.
\<close>

definition radius_probabilities ::
  "fitted \<Rightarrow> query \<Rightarrow> nat list list \<Rightarrow> error + nat \<times> npfloat list list" where
  "radius_probabilities m q pred_labels =
     (case radius_votes (length (self_classes m)) (radius_weights q) pred_labels of
        Inl e \<Rightarrow> Inl e
      | Inr votes \<Rightarrow> posterior (self_y m) (class_prior m) (length (self_classes m)) votes)"

text \<open>Line 381, \<^verbatim>\<open>preds[outliers] = self.outlier_label\<close>.\<close>

definition set_outliers :: "int list \<Rightarrow> nat list \<Rightarrow> int \<Rightarrow> int list" where
  "set_outliers preds outliers l = fold (\<lambda>i p. p[i := l]) outliers preds"

definition RadiusNeighborsClassifier_predict :: "fitted \<Rightarrow> query \<Rightarrow> error + int list" where
  "RadiusNeighborsClassifier_predict m q =
     (case mapE (gather (self_y m)) (neigh_ind q) of
        Inl e \<Rightarrow> Inl e
      | Inr pred_labels \<Rightarrow>
          (case radius_outliers (self_outlier_label m) pred_labels of
             Inl e \<Rightarrow> Inl e
           | Inr outliers \<Rightarrow>
               (case radius_probabilities m q pred_labels of
                  Inl e \<Rightarrow> Inl e
                | Inr probabilities \<Rightarrow>
                    (case argmax_classes (self_classes m) probabilities of
                       Inl e \<Rightarrow> Inl e
                     | Inr preds \<Rightarrow>
                         (case self_outlier_label m of
                            Some l \<Rightarrow> Inr (if l \<noteq> 0 then set_outliers preds outliers l else preds)
                          | None \<Rightarrow> Inr preds)))))"

subsection \<open>Auxiliary notions for the statements\<close>

text \<open>An entry that is zero or NaN: what a row without votes is made of on its way through the posterior.\<close>

definition zero_or_nan :: "npfloat \<Rightarrow> bool" where
  "zero_or_nan x = (x = Fin 0 \<or> x = NaN)"

text \<open>
  The training set of the docstrings, \<^verbatim>\<open>X = [[0], [1], [2], [3]]\<close>, \<^verbatim>\<open>y = [0, 0, 1, 1]\<close>,
  with a prior vector and an outlier label.
\<close>

definition doc_fitted :: "npfloat list \<Rightarrow> int option \<Rightarrow> fitted" where
  "doc_fitted prior outlier =
     \<lparr>self_y = [0, 0, 1, 1], self_classes = [0, 1], class_prior = prior,
      self_outlier_label = outlier\<rparr>"

text \<open>
  Two query points for the radius classifier with radius 1: \<^verbatim>\<open>[10]\<close>, which has
  no neighbour, and \<^verbatim>\<open>[2]\<close>, whose neighbours are the training points 2, 1 and 3.
\<close>

definition doc_query :: query where
  "doc_query = \<lparr>neigh_dist = [[], [0, 1, 1]], neigh_ind = [[], [2, 1, 3]], get_weights = None\<rparr>"

text \<open>
  The query \<^verbatim>\<open>[[1.5]]\<close> of the radius classifier's docstring: its neighbours within
  radius 1 are the training points 1 and 2, one of each class.
\<close>

definition tie_query :: query where
  "tie_query = \<lparr>neigh_dist = [[1/2, 1/2]], neigh_ind = [[1, 2]], get_weights = None\<rparr>"

subsection \<open>The vote as the spec words it\<close>

text \<open>
  The spec's VoteAggregator: a vector of length \<open>C\<close> whose entry at \<open>c\<close> is the sum of
  the weights of the neighbours labelled \<open>c\<close>, one summand for each occurrence.
  \<open>label_weights\<close> lists these weights in the order of the neighbours.
\<close>

definition label_weights :: "nat \<Rightarrow> nat list \<Rightarrow> npfloat list \<Rightarrow> npfloat list" where
  "label_weights c labels ws = map snd (filter (\<lambda>lw. fst lw = c) (zip labels ws))"

definition aggregate :: "nat list \<Rightarrow> npfloat list \<Rightarrow> nat \<Rightarrow> npfloat list" where
  "aggregate labels ws C = map (\<lambda>c. fsum (label_weights c labels ws)) [0..<C]"

subsection \<open>The posterior as the spec words it\<close>

text \<open>
  The spec's PosteriorNormalizer on one row of finite votes:
  \<open>adjusted[c] = votes[c] / classCount[c] * prior[c]\<close>, where \<open>classCount[c]\<close> is the
  number of training labels equal to \<open>c\<close>, and
  \<open>probability[c] = adjusted[c] / sum(adjusted)\<close>.
\<close>

definition classCount :: "nat list \<Rightarrow> nat \<Rightarrow> real" where
  "classCount trainLabels c = real (count_list trainLabels c)"

definition adjusted :: "real list \<Rightarrow> nat list \<Rightarrow> real list \<Rightarrow> nat \<Rightarrow> real" where
  "adjusted votes trainLabels prior c = votes ! c / classCount trainLabels c * prior ! c"

definition probability :: "real list \<Rightarrow> nat list \<Rightarrow> real list \<Rightarrow> nat \<Rightarrow> nat \<Rightarrow> real" where
  "probability votes trainLabels prior C c =
     adjusted votes trainLabels prior c
       / sum_list (map (adjusted votes trainLabels prior) [0..<C])"

text \<open>A finite float, and a matrix of finite floats.\<close>

fun is_fin :: "npfloat \<Rightarrow> bool" where
  "is_fin (Fin a) = True"
| "is_fin x = False"

fun the_fin :: "npfloat \<Rightarrow> real" where
  "the_fin (Fin a) = a"
| "the_fin x = 0"

text \<open>The vote on finite weights, as real numbers.\<close>

definition agg_real :: "nat list \<Rightarrow> real list \<Rightarrow> nat \<Rightarrow> real list" where
  "agg_real ls ws C =
     map (\<lambda>c. sum_list (map snd (filter (\<lambda>lw. fst lw = c) (zip ls ws)))) [0..<C]"

subsection \<open>The default prior and plain voting\<close>

text \<open>
  Modelled from the spec: \<^verbatim>\<open>_get_class_prior\<close> of \<^verbatim>\<open>sklearn/neighbors/base.py\<close>,
  which is not among the sources, for the policy \<^verbatim>\<open>'default'\<close>. The spec (4.2) and
  the docstring of \<^verbatim>\<open>class_prior\<close> give it: the prior of class \<open>c\<close> is the number of
  training labels equal to \<open>c\<close> divided by the number of training labels.
\<close>

definition default_class_prior :: "nat list \<Rightarrow> nat \<Rightarrow> npfloat list" where
  "default_class_prior trainingLabels C =
     map (\<lambda>c. fdiv (Fin (real (count_list trainingLabels c)))
                  (Fin (real (length trainingLabels)))) [0..<C]"

text \<open>Plain normalized voting, as the spec words it: \<open>probability[c] = votes[c] / sum(votes)\<close>.\<close>

definition plain_probability :: "npfloat list \<Rightarrow> npfloat list" where
  "plain_probability votes = map (\<lambda>v. fdiv v (fsum votes)) votes"

text \<open>The query \<^verbatim>\<open>[[0.9]]\<close> of the docstring of \<^verbatim>\<open>KNeighborsClassifier\<close>, with 3 neighbours.\<close>

definition knn_query :: query where
  "knn_query =
     \<lparr>neigh_dist = [[1/10, 9/10, 11/10]], neigh_ind = [[1, 0, 2]], get_weights = None\<rparr>"

section \<open>The same computation in float64\<close>

text \<open>
  The definitions above compute with exact numbers. They describe which operations the
  source applies and in which order; what a \<^verbatim>\<open>float64\<close> operation returns differs
  from the exact result by rounding, overflow and underflow. This section models the
  arithmetic of IEEE 754 binary64 in the default rounding mode (to nearest, ties to
  even) on the same type \<open>npfloat\<close>, and \<^verbatim>\<open>KNeighborsClassifier.predict_proba\<close> and
  \<^verbatim>\<open>predict\<close> a second time with it. The sign of zero is still not modelled.
\<close>

subsection \<open>Rounding to a double\<close>

text \<open>The nearest integer, the even one of the two when they are equally near.\<close>

definition half_even :: "real \<Rightarrow> int" where
  "half_even q =
     (let f = \<lfloor>q\<rfloor>; r = q - of_int f
      in if r < 1/2 then f else if 1/2 < r then f + 1 else if even f then f else f + 1)"

text \<open>
  The binary exponent of a positive number: \<open>e\<close> with \<open>2^e \<le> x < 2^(e+1)\<close>, found by
  halving or doubling \<open>x\<close> into \<open>[1, 2)\<close>, and not less than -1022, the exponent of the
  subnormal numbers. The bounds of the search are those of the format.
\<close>

fun exp_up :: "nat \<Rightarrow> real \<Rightarrow> int \<Rightarrow> int" where
  "exp_up 0 x e = e"
| "exp_up (Suc n) x e = (if x < 2 then e else exp_up n (x / 2) (e + 1))"

fun exp_down :: "nat \<Rightarrow> real \<Rightarrow> int \<Rightarrow> int" where
  "exp_down 0 x e = e"
| "exp_down (Suc n) x e = (if 1 \<le> x then e else exp_down n (2 * x) (e - 1))"

definition fexp :: "real \<Rightarrow> int" where
  "fexp x = (if 1 \<le> x then exp_up 1024 x 0 else exp_down 1022 x 0)"

text \<open>
  A positive number rounded to 53 significant bits: the doubles with exponent \<open>e\<close> are
  the multiples of \<open>2^(e-52)\<close>.
\<close>

definition round_pos :: "real \<Rightarrow> real" where
  "round_pos x = of_int (half_even (x / 2 powi (fexp x - 52))) * 2 powi (fexp x - 52)"

text \<open>
  The double nearest to a real number. A magnitude of \<open>2^1024 - 2^970\<close> or more, half
  a step above the largest double, becomes an infinity.
\<close>

definition round64 :: "real \<Rightarrow> npfloat" where
  "round64 x =
     (if x = 0 then Fin 0
      else if 2 ^ 1024 - 2 ^ 970 \<le> \<bar>x\<bar> then (if 0 < x then PInf else NInf)
      else Fin (sgn x * round_pos \<bar>x\<bar>))"

text \<open>
  The float64 operations: the exact result rounded. An infinity, NaN or a zero divisor is
  treated as before.
\<close>

fun add64 :: "npfloat \<Rightarrow> npfloat \<Rightarrow> npfloat" where
  "add64 (Fin a) (Fin b) = round64 (a + b)"
| "add64 x y = fadd x y"

fun mul64 :: "npfloat \<Rightarrow> npfloat \<Rightarrow> npfloat" where
  "mul64 (Fin a) (Fin b) = round64 (a * b)"
| "mul64 x y = fmul x y"

fun div64 :: "npfloat \<Rightarrow> npfloat \<Rightarrow> npfloat" where
  "div64 (Fin a) (Fin b) = (if b = 0 then fdiv (Fin a) (Fin b) else round64 (a / b))"
| "div64 x y = fdiv x y"

definition fsum64 :: "npfloat list \<Rightarrow> npfloat" where
  "fsum64 xs = foldl add64 (Fin 0) xs"

text \<open>
  The two error units: half the distance of neighbouring doubles relative to their size,
  and half the distance of the subnormal doubles.
\<close>

definition u64 :: real where
  "u64 = 1 / 2 ^ 53"

definition eta64 :: real where
  "eta64 = 2 powi (- 1075)"

text \<open>A double that is not negative, or the positive infinity.\<close>

fun nonneg64 :: "npfloat \<Rightarrow> bool" where
  "nonneg64 (Fin a) = (0 \<le> a \<and> round64 a = Fin a)"
| "nonneg64 PInf = True"
| "nonneg64 x = False"

subsection \<open>KNeighborsClassifier in float64\<close>

text \<open>Lines 181--187 with \<^verbatim>\<open>+=\<close> in float64.\<close>

definition add_at64 :: "npfloat list \<Rightarrow> nat \<Rightarrow> npfloat \<Rightarrow> npfloat list" where
  "add_at64 out l w = out[l := add64 (out ! l) w]"

definition add_column64 ::
  "nat \<Rightarrow> nat \<Rightarrow> nat list list \<Rightarrow> npfloat list list \<Rightarrow> npfloat list list
     \<Rightarrow> error + npfloat list list" where
  "add_column64 c i pred_indices weights P =
     (case column i pred_indices of
        Inl e \<Rightarrow> Inl e
      | Inr idx \<Rightarrow>
          if \<not> list_all (\<lambda>l. l < c) idx then Inl IndexError
          else (case column i weights of
                  Inl e \<Rightarrow> Inl e
                | Inr wcol \<Rightarrow>
                    if length wcol \<noteq> length P \<and> length wcol \<noteq> 1 then Inl ValueError
                    else Inr (map (\<lambda>(row, l, w). add_at64 row l w)
                                (zip P (zip idx (stretch (length P) wcol))))))"

fun vote_loop64 ::
  "nat \<Rightarrow> nat list list \<Rightarrow> npfloat list list \<Rightarrow> nat list \<Rightarrow> npfloat list list
     \<Rightarrow> error + npfloat list list" where
  "vote_loop64 c pred_indices weights [] P = Inr P"
| "vote_loop64 c pred_indices weights (i # is) P =
     (case add_column64 c i pred_indices weights P of
        Inl e \<Rightarrow> Inl e
      | Inr P' \<Rightarrow> vote_loop64 c pred_indices weights is P')"

definition knn_votes64 ::
  "nat \<Rightarrow> npfloat list list \<Rightarrow> nat list list \<Rightarrow> error + npfloat list list" where
  "knn_votes64 c weights pred_indices =
     vote_loop64 c pred_indices weights [0..<ncols pred_indices]
       (replicate (length pred_indices) (replicate c (Fin 0)))"

text \<open>
  Lines 191--193, \<^verbatim>\<open>(probabilities / class_count) * class_prior\<close>: the matrix before
  it is normalized, with its width.
\<close>

definition adjust64 ::
  "nat list \<Rightarrow> npfloat list \<Rightarrow> nat \<Rightarrow> npfloat list list \<Rightarrow> error + nat \<times> npfloat list list" where
  "adjust64 y prior c votes =
     (case np_bincount y of
        Inl e \<Rightarrow> Inl e
      | Inr class_count \<Rightarrow>
          (case rows_op div64 c votes (map (\<lambda>k. Fin (real k)) class_count) of
             Inl e \<Rightarrow> Inl e
           | Inr (c1, divided) \<Rightarrow> rows_op mul64 c1 divided prior))"

text \<open>Line 196, \<^verbatim>\<open>(probabilities.T / probabilities.sum(axis=1)).T\<close>, on one row.\<close>

definition normalize_row64 :: "npfloat list \<Rightarrow> npfloat list" where
  "normalize_row64 row = map (\<lambda>x. div64 x (fsum64 row)) row"

text \<open>Lines 173--187: the votes of a query.\<close>

definition knn_query_votes64 :: "fitted \<Rightarrow> query \<Rightarrow> error + npfloat list list" where
  "knn_query_votes64 m q =
     (case mapE (gather (self_y m)) (neigh_ind q) of
        Inl e \<Rightarrow> Inl e
      | Inr pred_indices \<Rightarrow>
          knn_votes64 (length (self_classes m))
            (knn_weights (get_weights q) pred_indices) pred_indices)"

text \<open>Lines 173--193: the matrix as it stands before line 196.\<close>

definition knn_adjusted64 :: "fitted \<Rightarrow> query \<Rightarrow> error + nat \<times> npfloat list list" where
  "knn_adjusted64 m q =
     (case knn_query_votes64 m q of
        Inl e \<Rightarrow> Inl e
      | Inr votes \<Rightarrow>
          adjust64 (self_y m) (class_prior m) (length (self_classes m)) votes)"

definition KNeighborsClassifier_predict_proba64 ::
  "fitted \<Rightarrow> query \<Rightarrow> error + nat \<times> npfloat list list" where
  "KNeighborsClassifier_predict_proba64 m q =
     (case knn_adjusted64 m q of
        Inl e \<Rightarrow> Inl e
      | Inr (c, unnormalized) \<Rightarrow> Inr (c, map normalize_row64 unnormalized))"

definition KNeighborsClassifier_predict64 :: "fitted \<Rightarrow> query \<Rightarrow> error + int list" where
  "KNeighborsClassifier_predict64 m q =
     (case KNeighborsClassifier_predict_proba64 m q of
        Inl e \<Rightarrow> Inl e
      | Inr probabilities \<Rightarrow> argmax_classes (self_classes m) probabilities)"

text \<open>
  Modelled from the spec: \<^verbatim>\<open>_get_class_prior\<close> of \<^verbatim>\<open>sklearn/neighbors/base.py\<close>,
  which is not among the sources, for the policy \<^verbatim>\<open>'default'\<close>, in float64: the count
  of class \<open>c\<close> divided by the number of training labels.
\<close>

definition default_class_prior64 :: "nat list \<Rightarrow> nat \<Rightarrow> npfloat list" where
  "default_class_prior64 trainingLabels C =
     map (\<lambda>c. div64 (Fin (real (count_list trainingLabels c)))
                  (Fin (real (length trainingLabels)))) [0..<C]"

text \<open>Plain normalized voting in float64: \<open>votes[c] / sum(votes)\<close>.\<close>

definition plain_probability64 :: "npfloat list \<Rightarrow> npfloat list" where
  "plain_probability64 votes = map (\<lambda>v. div64 v (fsum64 votes)) votes"


section \<open>Properties\<close>

subsection \<open>Lists, errors and the NumPy operations\<close>

lemma mapE_Inr_map: "(\<And>x. x \<in> set xs \<Longrightarrow> f x = Inr (g x)) \<Longrightarrow> mapE f xs = Inr (map g xs)"
  by (induction xs) auto

lemma mapE_Inr_length: "mapE f xs = Inr ys \<Longrightarrow> length ys = length xs"
  by (induction xs arbitrary: ys) (auto split: sum.splits)

lemma mapE_Inr_nth: "mapE f xs = Inr ys \<Longrightarrow> i < length xs \<Longrightarrow> f (xs ! i) = Inr (ys ! i)"
proof (induction xs arbitrary: ys i)
  case Nil
  then show ?case by simp
next
  case (Cons x xs)
  then show ?case by (cases i) (auto split: sum.splits)
qed

lemma gather_in_range: "list_all (\<lambda>j. j < length xs) ind \<Longrightarrow> gather xs ind = Inr (map (\<lambda>j. xs ! j) ind)"
  unfolding gather_def by (rule mapE_Inr_map) (simp add: take_at_def list_all_iff)

lemma gather_rows_in_range:
  "list_all (list_all (\<lambda>j. j < length xs)) M \<Longrightarrow> mapE (gather xs) M = Inr (map (map (\<lambda>j. xs ! j)) M)"
  by (rule mapE_Inr_map) (simp add: gather_in_range list_all_iff)

lemma fold_max_ge_init: "a \<le> fold max xs a" for a :: nat
proof (induction xs arbitrary: a)
  case Nil
  show ?case by simp
next
  case (Cons x xs)
  have "a \<le> max x a" by simp
  also have "\<dots> \<le> fold max xs (max x a)" by (rule Cons.IH)
  finally show ?case by simp
qed

lemma fold_max_ge: "x \<in> set xs \<Longrightarrow> x \<le> fold max xs a" for a :: nat
proof (induction xs arbitrary: a)
  case Nil
  then show ?case by simp
next
  case (Cons z zs)
  show ?case
  proof (cases "x = z")
    case True
    have "z \<le> max z a" by simp
    also have "\<dots> \<le> fold max zs (max z a)" by (rule fold_max_ge_init)
    finally show ?thesis using True by simp
  next
    case False
    then have "x \<in> set zs" using Cons.prems by simp
    then show ?thesis using Cons.IH by simp
  qed
qed

lemma fold_max_in: "fold max xs a = a \<or> fold max xs a \<in> set xs" for a :: nat
proof (induction xs arbitrary: a)
  case Nil
  show ?case by simp
next
  case (Cons x xs)
  from Cons.IH[of "max x a"] show ?case by (auto simp: max_def split: if_splits)
qed

lemma amax_ge: "x \<in> set xs \<Longrightarrow> x \<le> amax xs"
  unfolding amax_def by (rule fold_max_ge)

lemma amax_in: "xs \<noteq> [] \<Longrightarrow> amax xs \<in> set xs"
proof -
  assume ne: "xs \<noteq> []"
  show ?thesis
  proof (cases "amax xs \<in> set xs")
    case True
    then show ?thesis .
  next
    case False
    then have z: "amax xs = 0" using fold_max_in[of xs 0] by (simp add: amax_def)
    have "hd xs \<le> amax xs" using ne by (intro amax_ge) simp
    then have "hd xs = amax xs" using z by simp
    then show ?thesis using ne by (metis hd_in_set)
  qed
qed

lemma count_fold_length: "length (fold (\<lambda>l out. out[l := Suc (out ! l)]) xs init) = length init"
  by (induction xs arbitrary: init) auto

lemma count_fold_nth:
  "c < length init \<Longrightarrow>
   fold (\<lambda>l out. out[l := Suc (out ! l)]) xs init ! c = init ! c + count_list xs c"
proof (induction xs arbitrary: init)
  case Nil then show ?case by simp
next
  case (Cons x xs)
  then show ?case by (cases "x = c") (auto simp: nth_list_update)
qed

lemma np_bincount_length: "xs \<noteq> [] \<Longrightarrow> np_bincount xs = Inr cc \<Longrightarrow> length cc = Suc (amax xs)"
  by (auto simp: np_bincount_def count_fold_length)

lemma np_bincount_nth: "np_bincount xs = Inr cc \<Longrightarrow> c < length cc \<Longrightarrow> cc ! c = count_list xs c"
  by (auto simp: np_bincount_def count_fold_length count_fold_nth simp del: replicate_Suc split: if_splits)



subsection \<open>The radius classifier, step by step\<close>

lemma radius_outliers_falsy:
  "\<not> truthy ol \<Longrightarrow> [] \<in> set pred_labels \<Longrightarrow> radius_outliers ol pred_labels = Inl NoNeighborsError"
  by (auto simp: radius_outliers_def list_ex_iff)

lemma radius_outliers_truthy:
  "truthy ol \<Longrightarrow> radius_outliers ol pred_labels = Inr (filter (\<lambda>i. pred_labels ! i = []) [0..<length pred_labels])"
  by (simp add: radius_outliers_def)

lemma radius_votes_length: "radius_votes c w pl = Inr V \<Longrightarrow> length V = length pl"
  unfolding radius_votes_def by (drule mapE_Inr_length) simp

lemma radius_votes_row:
  "radius_votes c w pl = Inr V \<Longrightarrow> r < length pl \<Longrightarrow> radius_vote_row c w (r, pl ! r) = Inr (V ! r)"
  unfolding radius_votes_def by (drule mapE_Inr_nth[where i = r]) (simp_all add: nth_enumerate_eq)

lemma radius_votes_outlier_row:
  "radius_votes c w pl = Inr V \<Longrightarrow> r < length pl \<Longrightarrow> pl ! r = [] \<Longrightarrow> V ! r = replicate c (Fin 0)"
  by (drule radius_votes_row[where r = r]) (simp_all add: radius_vote_row_def)

lemma length_stretch [simp]: "length (stretch n xs) = n"
  by (simp add: stretch_def)

lemma set_stretch: "length xs = n \<or> xs \<noteq> [] \<Longrightarrow> set (stretch n xs) \<subseteq> set xs"
  by (auto simp: stretch_def)

lemma np_broadcast_D: "np_broadcast c m = Inr c' \<Longrightarrow> (c' = c \<or> c = 1) \<and> (c' = m \<or> m = 1)"
  by (auto simp: np_broadcast_def split: if_splits)

lemma posterior_Inr_D:
  assumes "posterior y prior c V = Inr (c', P)"
  shows "\<exists>cc c1. np_bincount y = Inr cc \<and> np_broadcast c (length cc) = Inr c1
            \<and> np_broadcast c1 (length prior) = Inr c'
            \<and> P = map (\<lambda>row. normalize_row
                    (map2 fmul (stretch c' (map2 fdiv (stretch c1 row) (stretch c1 (map (\<lambda>k. Fin (real k)) cc))))
                       (stretch c' prior))) V"
  using assms
  by (auto simp: posterior_def rows_op_def split: sum.splits prod.splits)

lemma posterior_length: "posterior y prior c V = Inr cP \<Longrightarrow> length (snd cP) = length V"
  by (cases cP) (auto dest: posterior_Inr_D)

lemma zero_or_nan_fdiv: "zero_or_nan x \<Longrightarrow> zero_or_nan (fdiv x y)"
  by (cases y) (auto simp: zero_or_nan_def)

lemma zero_or_nan_fmul: "zero_or_nan x \<Longrightarrow> zero_or_nan (fmul x y)"
  by (cases y) (auto simp: zero_or_nan_def)

lemma zero_or_nan_fadd: "zero_or_nan x \<Longrightarrow> zero_or_nan y \<Longrightarrow> zero_or_nan (fadd x y)"
  by (auto simp: zero_or_nan_def)

lemma zero_or_nan_foldl: "zero_or_nan a \<Longrightarrow> list_all zero_or_nan xs \<Longrightarrow> zero_or_nan (foldl fadd a xs)"
  by (induction xs arbitrary: a) (auto simp: zero_or_nan_fadd)

lemma zero_or_nan_fsum: "list_all zero_or_nan xs \<Longrightarrow> zero_or_nan (fsum xs)"
  unfolding fsum_def by (rule zero_or_nan_foldl) (simp_all add: zero_or_nan_def)

lemma zero_or_nan_div: "zero_or_nan x \<Longrightarrow> zero_or_nan s \<Longrightarrow> fdiv x s = NaN"
  by (auto simp: zero_or_nan_def)

lemma normalize_row_zero_or_nan: "list_all zero_or_nan row \<Longrightarrow> normalize_row row = replicate (length row) NaN"
proof -
  assume a: "list_all zero_or_nan row"
  then have s: "zero_or_nan (fsum row)" by (rule zero_or_nan_fsum)
  have "map (\<lambda>x. fdiv x (fsum row)) row = map (\<lambda>x. NaN) row"
    using a s by (intro map_cong) (auto simp: list_all_iff zero_or_nan_div)
  then show ?thesis by (simp add: normalize_row_def map_replicate_const)
qed

lemma zero_or_nan_stretch: "list_all zero_or_nan xs \<Longrightarrow> length xs = n \<or> xs \<noteq> [] \<Longrightarrow> list_all zero_or_nan (stretch n xs)"
  using set_stretch[of xs n] by (auto simp: list_all_iff)

lemma zero_or_nan_map2: "list_all zero_or_nan xs \<Longrightarrow> (\<And>x y. zero_or_nan x \<Longrightarrow> zero_or_nan (f x y)) \<Longrightarrow> list_all zero_or_nan (map2 f xs ys)"
  by (auto simp: list_all_iff dest!: set_zip_leftD)

lemma posterior_zero_row:
  assumes p: "posterior y prior c V = Inr (c', P)" and r: "r < length V"
      and z: "V ! r = replicate c (Fin 0)"
  shows "P ! r = replicate c' NaN"
proof -
  from posterior_Inr_D[OF p] obtain cc c1 where
    b1: "np_broadcast c (length cc) = Inr c1" and b2: "np_broadcast c1 (length prior) = Inr c'"
    and P: "P = map (\<lambda>row. normalize_row
                    (map2 fmul (stretch c' (map2 fdiv (stretch c1 row) (stretch c1 (map (\<lambda>k. Fin (real k)) cc))))
                       (stretch c' prior))) V"
    by blast
  let ?row = "V ! r"
  let ?d = "map2 fdiv (stretch c1 ?row) (stretch c1 (map (\<lambda>k. Fin (real k)) cc))"
  let ?a = "map2 fmul (stretch c' ?d) (stretch c' prior)"
  have z0: "list_all zero_or_nan ?row" by (simp add: z list_all_iff zero_or_nan_def)
  have l0: "length ?row = c" by (simp add: z)
  have "length ?row = c1 \<or> ?row \<noteq> []" using np_broadcast_D[OF b1] l0 by auto
  then have "list_all zero_or_nan (stretch c1 ?row)" using z0 by (intro zero_or_nan_stretch)
  then have zd: "list_all zero_or_nan ?d" by (rule zero_or_nan_map2) (rule zero_or_nan_fdiv)
  have ld: "length ?d = c1" by simp
  have "length ?d = c' \<or> ?d \<noteq> []" using np_broadcast_D[OF b2] ld by (metis length_0_conv zero_neq_one)
  then have "list_all zero_or_nan (stretch c' ?d)" using zd by (intro zero_or_nan_stretch)
  then have za: "list_all zero_or_nan ?a" by (rule zero_or_nan_map2) (rule zero_or_nan_fmul)
  have "P ! r = normalize_row ?a" using P r by simp
  also have "\<dots> = replicate (length ?a) NaN" using za by (rule normalize_row_zero_or_nan)
  finally show ?thesis by simp
qed

lemma argmax_classes_length: "argmax_classes cls cP = Inr preds \<Longrightarrow> length preds = length (snd cP)"
  by (auto simp: argmax_classes_def gather_def split: if_splits sum.splits dest!: mapE_Inr_length)

lemma set_outliers_length [simp]: "length (set_outliers preds os l) = length preds"
  unfolding set_outliers_def by (induction os arbitrary: preds) auto

lemma set_outliers_nth:
  "i < length preds \<Longrightarrow> set_outliers preds os l ! i = (if i \<in> set os then l else preds ! i)"
  unfolding set_outliers_def
proof (induction os arbitrary: preds)
  case Nil then show ?case by simp
next
  case (Cons a os)
  show ?case
  proof (cases "i \<in> set os")
    case True
    then show ?thesis using Cons.IH[of "preds[a := l]"] Cons.prems by simp
  next
    case False
    then show ?thesis using Cons.IH[of "preds[a := l]"] Cons.prems by (auto simp: nth_list_update)
  qed
qed

text \<open>What a successful radius predict is made of.\<close>

lemma radius_predict_Inr_D:
  assumes "RadiusNeighborsClassifier_predict m q = Inr preds"
  shows "\<exists>pl os cP preds0.
           mapE (gather (self_y m)) (neigh_ind q) = Inr pl
         \<and> radius_outliers (self_outlier_label m) pl = Inr os
         \<and> radius_probabilities m q pl = Inr cP
         \<and> argmax_classes (self_classes m) cP = Inr preds0
         \<and> preds = (case self_outlier_label m of
                       Some l \<Rightarrow> if l \<noteq> 0 then set_outliers preds0 os l else preds0
                     | None \<Rightarrow> preds0)"
  using assms
  by (auto simp: RadiusNeighborsClassifier_predict_def split: sum.splits option.splits if_splits)

lemma gather_rows_nth_Nil:
  "mapE (gather ys) M = Inr pl \<Longrightarrow> r < length M \<Longrightarrow> (pl ! r = []) = (M ! r = [])"
proof -
  assume a: "mapE (gather ys) M = Inr pl" and r: "r < length M"
  from mapE_Inr_nth[OF a r] have "gather ys (M ! r) = Inr (pl ! r)" .
  then have "length (pl ! r) = length (M ! r)" unfolding gather_def by (rule mapE_Inr_length)
  then show ?thesis by auto
qed

lemma radius_probabilities_length:
  "radius_probabilities m q pl = Inr cP \<Longrightarrow> length (snd cP) = length pl"
  by (auto simp: radius_probabilities_def split: sum.splits dest!: posterior_length radius_votes_length)

lemma radius_probabilities_outlier_row:
  assumes "radius_probabilities m q pl = Inr (c, P)" "r < length pl" "pl ! r = []"
  shows "P ! r = replicate c NaN"
proof -
  from assms(1) obtain V where V: "radius_votes (length (self_classes m)) (radius_weights q) pl = Inr V"
    and p: "posterior (self_y m) (class_prior m) (length (self_classes m)) V = Inr (c, P)"
    by (auto simp: radius_probabilities_def split: sum.splits)
  have "r < length V" using radius_votes_length[OF V] assms(2) by simp
  moreover have "V ! r = replicate (length (self_classes m)) (Fin 0)"
    using radius_votes_outlier_row[OF V assms(2,3)] .
  ultimately show ?thesis using posterior_zero_row[OF p] by simp
qed

lemma radius_predict_outlier_label:
  assumes ok: "RadiusNeighborsClassifier_predict m q = Inr preds"
      and l: "self_outlier_label m = Some l" "l \<noteq> 0"
      and r: "r < length (neigh_ind q)" "neigh_ind q ! r = []"
  shows "r < length preds \<and> preds ! r = l"
proof -
  from radius_predict_Inr_D[OF ok] obtain pl os cP preds0 where
    g: "mapE (gather (self_y m)) (neigh_ind q) = Inr pl"
    and o: "radius_outliers (self_outlier_label m) pl = Inr os"
    and p: "radius_probabilities m q pl = Inr cP"
    and a: "argmax_classes (self_classes m) cP = Inr preds0"
    and pr: "preds = set_outliers preds0 os l"
    using l by auto
  have lpl: "length pl = length (neigh_ind q)" using mapE_Inr_length[OF g] .
  have "pl ! r = []" using gather_rows_nth_Nil[OF g r(1)] r(2) by simp
  moreover have "os = filter (\<lambda>i. pl ! i = []) [0..<length pl]"
    using o l by (simp add: radius_outliers_truthy)
  ultimately have "r \<in> set os" using r(1) lpl by simp
  moreover have "length preds0 = length pl"
    using argmax_classes_length[OF a] radius_probabilities_length[OF p] by simp
  ultimately show ?thesis using pr r(1) lpl by (simp add: set_outliers_nth)
qed

lemmas doc_eval =
  doc_fitted_def doc_query_def RadiusNeighborsClassifier_predict_def
  KNeighborsClassifier_predict_def KNeighborsClassifier_predict_proba_def
  radius_probabilities_def radius_weights_def radius_votes_def radius_vote_row_def
  radius_outliers_def set_outliers_def argmax_classes_def posterior_def normalize_row_def
  knn_votes_def knn_weights_def add_column_def column_def rows_op_def np_broadcast_def stretch_def
  np_bincount_def np_bincount_w_def add_at_def amax_def gather_def take_at_def fsum_def
  enumerate_eq_zip upt_conv_Cons

subsection \<open>The first maximum\<close>

lemma fle_refl: "x \<noteq> NaN \<Longrightarrow> fle x x"
  by (cases x) auto

lemma fle_total: "x \<noteq> NaN \<Longrightarrow> y \<noteq> NaN \<Longrightarrow> fle x y \<or> fle y x"
  by (cases x; cases y) auto

lemma fle_trans: "fle x y \<Longrightarrow> fle y z \<Longrightarrow> fle x z"
  by (cases x; cases y; cases z) auto

lemma argmax_loop_first_max:
  assumes "list_all (\<lambda>x. x \<noteq> NaN) row" and "xs = drop i row" and "i \<le> length row"
      and "best < i" and "row ! best = mp"
      and "\<forall>j<i. fle (row ! j) mp" and "\<forall>j<best. \<not> fle mp (row ! j)"
  shows "argmax_loop mp best i xs < length row
         \<and> (\<forall>j<length row. fle (row ! j) (row ! argmax_loop mp best i xs))
         \<and> (\<forall>j<argmax_loop mp best i xs. \<not> fle (row ! argmax_loop mp best i xs) (row ! j))"
  using assms
proof (induction xs arbitrary: mp best i)
  case Nil
  then have "i = length row" by simp
  then show ?case using Nil by simp
next
  case (Cons x xs)
  have i: "i < length row" using Cons.prems(2,3) by (cases "i = length row") auto
  have x: "row ! i = x" using Cons.prems(2) i by (metis nth_via_drop)
  have xs: "xs = drop (Suc i) row" using Cons.prems(2) by (metis drop_Suc tl_drop list.sel(3))
  have nn: "x \<noteq> NaN" using Cons.prems(1) x i by (auto simp: list_all_length)
  have mpn: "mp \<noteq> NaN" using Cons.prems(1,4,5) i by (auto simp: list_all_length)
  show ?case
  proof (cases "fle x mp")
    case True
    have "\<forall>j<Suc i. fle (row ! j) mp"
      using Cons.prems(6) True x by (auto simp: less_Suc_eq)
    then show ?thesis
      using Cons.IH[of "Suc i" best mp] Cons.prems(1,4,5,7) xs i True by simp
  next
    case False
    then have mx: "fle mp x" using fle_total[OF nn mpn] by simp
    have a: "\<forall>j<Suc i. fle (row ! j) x"
      using Cons.prems(6) mx x nn by (auto simp: less_Suc_eq fle_refl intro: fle_trans)
    have b: "\<forall>j<i. \<not> fle x (row ! j)"
      using Cons.prems(6) False by (auto dest: fle_trans)
    show ?thesis
      using Cons.IH[of "Suc i" i x] Cons.prems(1) xs i x a b False nn by simp
  qed
qed

lemma np_argmax_first_max:
  assumes "list_all (\<lambda>x. x \<noteq> NaN) row" and "row \<noteq> []"
  shows "\<exists>i. np_argmax row = Inr i \<and> i < length row
            \<and> (\<forall>j<length row. fle (row ! j) (row ! i))
            \<and> (\<forall>j<i. \<not> fle (row ! i) (row ! j))"
proof -
  obtain x xs where row: "row = x # xs" using assms(2) by (cases row) auto
  have nn: "x \<noteq> NaN" using assms(1) row by simp
  have "argmax_loop x 0 1 xs < length row
         \<and> (\<forall>j<length row. fle (row ! j) (row ! argmax_loop x 0 1 xs))
         \<and> (\<forall>j<argmax_loop x 0 1 xs. \<not> fle (row ! argmax_loop x 0 1 xs) (row ! j))"
    by (rule argmax_loop_first_max) (use assms(1) row nn in \<open>auto simp: fle_refl\<close>)
  then show ?thesis using row nn by simp
qed

lemma posterior_row_length:
  assumes "posterior y prior c V = Inr (c', P)" and "row \<in> set P"
  shows "length row = c'"
  using posterior_Inr_D[OF assms(1)] assms(2) by (auto simp: normalize_row_def)

lemma argmax_classes_nth:
  assumes "argmax_classes cls (c, P) = Inr preds" and "r < length P"
  shows "\<exists>i. np_argmax (P ! r) = Inr i \<and> i < length cls \<and> preds ! r = cls ! i"
proof -
  from assms(1) obtain best where b: "mapE np_argmax P = Inr best" and g: "gather cls best = Inr preds"
    by (auto simp: argmax_classes_def split: if_splits sum.splits)
  have lb: "length best = length P" using mapE_Inr_length[OF b] .
  have "np_argmax (P ! r) = Inr (best ! r)" using mapE_Inr_nth[OF b assms(2)] .
  moreover have "take_at cls (best ! r) = Inr (preds ! r)"
    using mapE_Inr_nth[OF g[unfolded gather_def], of r] assms(2) lb by simp
  ultimately show ?thesis by (auto simp: take_at_def split: if_splits)
qed

lemma argmax_classes_tie_break:
  assumes s: "sorted_wrt (<) cls"
      and a: "argmax_classes cls (c, P) = Inr preds"
      and r: "r < length P" and n: "list_all (\<lambda>x. x \<noteq> NaN) (P ! r)"
  shows "\<exists>i < length (P ! r). i < length cls \<and> preds ! r = cls ! i
            \<and> (\<forall>j<length (P ! r). fle (P ! r ! j) (P ! r ! i))
            \<and> (\<forall>j<length (P ! r). j < length cls \<longrightarrow> P ! r ! j = P ! r ! i \<longrightarrow> cls ! i \<le> cls ! j)"
proof -
  from argmax_classes_nth[OF a r] obtain i where
    i: "np_argmax (P ! r) = Inr i" "i < length cls" "preds ! r = cls ! i" by blast
  then have ne: "P ! r \<noteq> []" by (cases "P ! r") auto
  from np_argmax_first_max[OF n ne] i(1) have
    il: "i < length (P ! r)" and mx: "\<forall>j<length (P ! r). fle (P ! r ! j) (P ! r ! i)"
    and first: "\<forall>j<i. \<not> fle (P ! r ! i) (P ! r ! j)" by auto
  have "cls ! i \<le> cls ! j" if "j < length (P ! r)" "j < length cls" "P ! r ! j = P ! r ! i" for j
  proof -
    have "P ! r ! i \<noteq> NaN" using n il by (auto simp: list_all_length)
    then have "fle (P ! r ! i) (P ! r ! j)" using that(3) by (simp add: fle_refl)
    then have "i \<le> j" using first by (meson not_le_imp_less)
    then show ?thesis
      using s that(2) sorted_wrt_nth_less[OF s, of i j] by (cases "i = j") auto
  qed
  then show ?thesis using i il mx by blast
qed

text \<open>With an outlier label that counts as true, the other rows keep the label of their largest entry.\<close>

lemma radius_predict_other_rows:
  assumes ok: "RadiusNeighborsClassifier_predict m q = Inr preds"
      and l: "self_outlier_label m = Some l" "l \<noteq> 0"
      and g: "mapE (gather (self_y m)) (neigh_ind q) = Inr pl"
      and p: "radius_probabilities m q pl = Inr (c, P)"
      and r: "r < length pl" "pl ! r \<noteq> []"
  shows "\<exists>i. np_argmax (P ! r) = Inr i \<and> i < length (self_classes m)
            \<and> preds ! r = self_classes m ! i"
proof -
  from radius_predict_Inr_D[OF ok] g p l obtain os preds0 where
    o: "radius_outliers (self_outlier_label m) pl = Inr os"
    and a: "argmax_classes (self_classes m) (c, P) = Inr preds0"
    and pr: "preds = set_outliers preds0 os l"
    by auto
  have lP: "length P = length pl" using radius_probabilities_length[OF p] by simp
  have l0: "length preds0 = length P" using argmax_classes_length[OF a] by simp
  have "r \<notin> set os" using o r(2) l by (auto simp: radius_outliers_def)
  then have "preds ! r = preds0 ! r" using pr r(1) l0 lP by (simp add: set_outliers_nth)
  then show ?thesis using argmax_classes_nth[OF a, of r] r(1) lP by simp
qed

subsection \<open>The vote loops\<close>

lemma fsum_snoc: "fsum (xs @ [w]) = fadd (fsum xs) w"
  by (simp add: fsum_def)

lemma label_weights_snoc:
  "length ls = length ws \<Longrightarrow>
   label_weights c (ls @ [l]) (ws @ [w]) = (if l = c then label_weights c ls ws @ [w] else label_weights c ls ws)"
  by (simp add: label_weights_def)

lemma length_aggregate [simp]: "length (aggregate ls ws C) = C"
  by (simp add: aggregate_def)

lemma aggregate_nth: "c < C \<Longrightarrow> aggregate ls ws C ! c = fsum (label_weights c ls ws)"
  by (simp add: aggregate_def)

lemma aggregate_Nil: "aggregate [] ws C = replicate C (Fin 0)"
  by (simp add: aggregate_def label_weights_def fsum_def map_replicate_const)

lemma aggregate_snoc:
  assumes "length ls = length ws" and "l < C"
  shows "add_at (aggregate ls ws C) l w = aggregate (ls @ [l]) (ws @ [w]) C"
proof (rule nth_equalityI)
  show "length (add_at (aggregate ls ws C) l w) = length (aggregate (ls @ [l]) (ws @ [w]) C)"
    by (simp add: add_at_def)
next
  fix c assume "c < length (add_at (aggregate ls ws C) l w)"
  then have c: "c < C" by (simp add: add_at_def)
  show "add_at (aggregate ls ws C) l w ! c = aggregate (ls @ [l]) (ws @ [w]) C ! c"
    using c assms
    by (simp add: add_at_def aggregate_nth label_weights_snoc fsum_snoc nth_list_update)
qed

lemma take_Suc_snoc: "i < length xs \<Longrightarrow> take (Suc i) xs = take i xs @ [xs ! i]"
  by (simp add: take_Suc_conv_app_nth)

lemma aggregate_take_Suc:
  assumes "length ls = length ws" and "i < length ls" and "ls ! i < C"
  shows "add_at (aggregate (take i ls) (take i ws) C) (ls ! i) (ws ! i)
           = aggregate (take (Suc i) ls) (take (Suc i) ws) C"
  using assms aggregate_snoc[of "take i ls" "take i ws" "ls ! i" C "ws ! i"]
  by (simp add: take_Suc_snoc)

text \<open>\<^verbatim>\<open>np.bincount\<close> with weights adds the weights up class by class.\<close>

lemma fold_add_at:
  assumes "length ls = length ws" and "list_all (\<lambda>l. l < C) ls" and "length ls0 = length ws0"
  shows "fold (\<lambda>(l, w) out. add_at out l w) (zip ls ws) (aggregate ls0 ws0 C)
           = aggregate (ls0 @ ls) (ws0 @ ws) C"
  using assms
proof (induction ls ws arbitrary: ls0 ws0 rule: list_induct2)
  case Nil
  then show ?case by simp
next
  case (Cons l ls w ws)
  have "fold (\<lambda>(l, w) out. add_at out l w) (zip (l # ls) (w # ws)) (aggregate ls0 ws0 C)
          = fold (\<lambda>(l, w) out. add_at out l w) (zip ls ws) (aggregate (ls0 @ [l]) (ws0 @ [w]) C)"
    using Cons.prems by (simp add: aggregate_snoc)
  also have "\<dots> = aggregate ((ls0 @ [l]) @ ls) ((ws0 @ [w]) @ ws) C"
    using Cons.prems by (intro Cons.IH) simp_all
  finally show ?case by simp
qed

lemma label_weights_absent: "c \<notin> set ls \<Longrightarrow> label_weights c ls ws = []"
  by (auto simp: label_weights_def filter_empty_conv dest: set_zip_leftD)

lemma aggregate_pad:
  assumes "list_all (\<lambda>l. l < M) ls" and "M \<le> C"
  shows "aggregate ls ws M @ replicate (C - M) (Fin 0) = aggregate ls ws C"
proof (rule nth_equalityI)
  show "length (aggregate ls ws M @ replicate (C - M) (Fin 0)) = length (aggregate ls ws C)"
    using assms(2) by simp
next
  fix c assume "c < length (aggregate ls ws M @ replicate (C - M) (Fin 0))"
  then have c: "c < C" using assms(2) by simp
  show "(aggregate ls ws M @ replicate (C - M) (Fin 0)) ! c = aggregate ls ws C ! c"
  proof (cases "c < M")
    case True
    then show ?thesis using c by (simp add: nth_append aggregate_nth)
  next
    case False
    then have "c \<notin> set ls" using assms(1) by (auto simp: list_all_iff)
    then have "label_weights c ls ws = []" by (rule label_weights_absent)
    then show ?thesis using False c by (simp add: nth_append aggregate_nth fsum_def)
  qed
qed

lemma np_bincount_w_aggregate:
  assumes "ls \<noteq> []" and "length ws = length ls"
  shows "np_bincount_w ls ws = Inr (aggregate ls ws (Suc (amax ls)))"
proof -
  have a: "list_all (\<lambda>l. l < Suc (amax ls)) ls"
    by (auto simp: list_all_iff less_Suc_eq_le intro: amax_ge)
  have "fold (\<lambda>(l, w) out. add_at out l w) (zip ls ws) (aggregate [] [] (Suc (amax ls)))
          = aggregate ([] @ ls) ([] @ ws) (Suc (amax ls))"
    using assms(2) a by (intro fold_add_at) simp_all
  then show ?thesis using assms by (simp add: np_bincount_w_def aggregate_Nil)
qed

lemma radius_vote_row_aggregate:
  assumes "r < length weights" and "length (weights ! r) = length ls" and "list_all (\<lambda>l. l < C) ls"
  shows "radius_vote_row C weights (r, ls) = Inr (aggregate ls (weights ! r) C)"
proof (cases "ls = []")
  case True
  then show ?thesis by (simp add: radius_vote_row_def aggregate_Nil)
next
  case False
  have "amax ls \<in> set ls" using False by (rule amax_in)
  then have m: "Suc (amax ls) \<le> C" using assms(3) by (auto simp: list_all_iff)
  have a: "list_all (\<lambda>l. l < Suc (amax ls)) ls"
    by (auto simp: list_all_iff less_Suc_eq_le intro: amax_ge)
  have "aggregate ls (weights ! r) (Suc (amax ls)) @ replicate (C - Suc (amax ls)) (Fin 0)
          = aggregate ls (weights ! r) C"
    using a m by (rule aggregate_pad)
  then show ?thesis
    using False assms(1,2) m np_bincount_w_aggregate[OF False assms(2)]
    by (simp add: radius_vote_row_def take_at_def)
qed

lemma radius_votes_aggregate:
  assumes "length weights = length labels"
      and "\<forall>r < length labels. length (weights ! r) = length (labels ! r)"
      and "list_all (list_all (\<lambda>l. l < C)) labels"
  shows "radius_votes C weights labels
           = Inr (map (\<lambda>r. aggregate (labels ! r) (weights ! r) C) [0..<length labels])"
proof -
  have "mapE (radius_vote_row C weights) (enumerate 0 labels)
          = Inr (map (\<lambda>ip. aggregate (snd ip) (weights ! fst ip) C) (enumerate 0 labels))"
  proof (rule mapE_Inr_map)
    fix ip assume "ip \<in> set (enumerate 0 labels)"
    then have r: "fst ip < length labels" "snd ip = labels ! fst ip"
      by (simp_all add: in_set_enumerate_eq)
    have "radius_vote_row C weights (fst ip, snd ip) = Inr (aggregate (snd ip) (weights ! fst ip) C)"
      using assms r by (intro radius_vote_row_aggregate) (simp_all add: list_all_length)
    then show "radius_vote_row C weights ip = Inr (aggregate (snd ip) (weights ! fst ip) C)"
      by simp
  qed
  moreover have "map (\<lambda>ip. aggregate (snd ip) (weights ! fst ip) C) (enumerate 0 labels)
                   = map (\<lambda>r. aggregate (labels ! r) (weights ! r) C) [0..<length labels]"
    by (rule nth_equalityI) (simp_all add: nth_enumerate_eq)
  ultimately show ?thesis by (simp add: radius_votes_def)
qed

text \<open>The loop over the columns does the same, one neighbour of every row at a time.\<close>

lemma column_rect:
  "list_all (\<lambda>row. i < length row) M \<Longrightarrow> column i M = Inr (map (\<lambda>row. row ! i) M)"
  unfolding column_def by (rule mapE_Inr_map) (simp add: take_at_def list_all_iff)

lemma add_column_aggregate:
  assumes n: "length weights = length labels"
      and k: "list_all (\<lambda>ls. length ls = k) labels"
      and w: "\<forall>r < length labels. length (weights ! r) = length (labels ! r)"
      and c: "list_all (list_all (\<lambda>l. l < C)) labels"
      and i: "i < k"
  shows "add_column C i labels weights
           (map (\<lambda>r. aggregate (take i (labels ! r)) (take i (weights ! r)) C) [0..<length labels])
         = Inr (map (\<lambda>r. aggregate (take (Suc i) (labels ! r)) (take (Suc i) (weights ! r)) C)
                  [0..<length labels])"
proof -
  let ?n = "length labels"
  have lk: "\<And>r. r < ?n \<Longrightarrow> length (labels ! r) = k" using k by (simp add: list_all_length)
  have wk: "\<And>r. r < ?n \<Longrightarrow> length (weights ! r) = k" using w lk by simp
  have c1: "column i labels = Inr (map (\<lambda>row. row ! i) labels)"
    using k i by (intro column_rect) (auto simp: list_all_iff)
  have c2: "column i weights = Inr (map (\<lambda>row. row ! i) weights)"
    using wk i n by (intro column_rect) (auto simp: list_all_length)
  have ok: "list_all (\<lambda>l. l < C) (map (\<lambda>row. row ! i) labels)"
    using c lk i by (auto simp: list_all_length)
  have "map (\<lambda>(row, l, w). add_at row l w)
          (zip (map (\<lambda>r. aggregate (take i (labels ! r)) (take i (weights ! r)) C) [0..<?n])
             (zip (map (\<lambda>row. row ! i) labels) (map (\<lambda>row. row ! i) weights)))
        = map (\<lambda>r. aggregate (take (Suc i) (labels ! r)) (take (Suc i) (weights ! r)) C) [0..<?n]"
  proof (rule nth_equalityI)
    show "length (map (\<lambda>(row, l, w). add_at row l w)
          (zip (map (\<lambda>r. aggregate (take i (labels ! r)) (take i (weights ! r)) C) [0..<?n])
             (zip (map (\<lambda>row. row ! i) labels) (map (\<lambda>row. row ! i) weights))))
        = length (map (\<lambda>r. aggregate (take (Suc i) (labels ! r)) (take (Suc i) (weights ! r)) C) [0..<?n])"
      using n by simp
  next
    fix r assume "r < length (map (\<lambda>(row, l, w). add_at row l w)
          (zip (map (\<lambda>r. aggregate (take i (labels ! r)) (take i (weights ! r)) C) [0..<?n])
             (zip (map (\<lambda>row. row ! i) labels) (map (\<lambda>row. row ! i) weights))))"
    then have r: "r < ?n" using n by simp
    have "labels ! r ! i < C" using c r lk i by (auto simp: list_all_length)
    then have "add_at (aggregate (take i (labels ! r)) (take i (weights ! r)) C) (labels ! r ! i) (weights ! r ! i)
          = aggregate (take (Suc i) (labels ! r)) (take (Suc i) (weights ! r)) C"
      using lk[OF r] wk[OF r] i by (intro aggregate_take_Suc) simp_all
    then show "map (\<lambda>(row, l, w). add_at row l w)
          (zip (map (\<lambda>r. aggregate (take i (labels ! r)) (take i (weights ! r)) C) [0..<?n])
             (zip (map (\<lambda>row. row ! i) labels) (map (\<lambda>row. row ! i) weights))) ! r
        = map (\<lambda>r. aggregate (take (Suc i) (labels ! r)) (take (Suc i) (weights ! r)) C) [0..<?n] ! r"
      using r n by simp
  qed
  then show ?thesis
    using c1 c2 ok n by (simp add: add_column_def stretch_def)
qed

lemma vote_loop_aggregate:
  assumes n: "length weights = length labels"
      and k: "list_all (\<lambda>ls. length ls = k) labels"
      and w: "\<forall>r < length labels. length (weights ! r) = length (labels ! r)"
      and c: "list_all (list_all (\<lambda>l. l < C)) labels"
      and i: "i \<le> k"
  shows "vote_loop C labels weights [i..<k]
           (map (\<lambda>r. aggregate (take i (labels ! r)) (take i (weights ! r)) C) [0..<length labels])
         = Inr (map (\<lambda>r. aggregate (take k (labels ! r)) (take k (weights ! r)) C)
                  [0..<length labels])"
  using i
proof (induction "k - i" arbitrary: i)
  case 0
  then have "i = k" by simp
  then show ?case by simp
next
  case (Suc d)
  then have i: "i < k" by simp
  have "[i..<k] = i # [Suc i..<k]" using i by (simp add: upt_conv_Cons)
  moreover have "d = k - Suc i" using Suc.hyps(2) by simp
  ultimately show ?case
    using add_column_aggregate[OF n k w c i] Suc.hyps(1)[of "Suc i"] i by simp
qed

lemma knn_votes_aggregate:
  assumes n: "length weights = length labels"
      and k: "list_all (\<lambda>ls. length ls = ncols labels) labels"
      and w: "\<forall>r < length labels. length (weights ! r) = length (labels ! r)"
      and c: "list_all (list_all (\<lambda>l. l < C)) labels"
  shows "knn_votes C weights labels
           = Inr (map (\<lambda>r. aggregate (labels ! r) (weights ! r) C) [0..<length labels])"
proof -
  let ?n = "length labels" and ?k = "ncols labels"
  have init: "replicate ?n (replicate C (Fin 0))
                = map (\<lambda>r. aggregate (take 0 (labels ! r)) (take 0 (weights ! r)) C) [0..<?n]"
    by (simp add: aggregate_Nil map_replicate_const)
  have fin: "map (\<lambda>r. aggregate (take ?k (labels ! r)) (take ?k (weights ! r)) C) [0..<?n]
               = map (\<lambda>r. aggregate (labels ! r) (weights ! r) C) [0..<?n]"
    using k w by (auto simp: list_all_length)
  show ?thesis
    unfolding knn_votes_def
    using vote_loop_aggregate[OF n k w c, of 0] by (simp add: init fin del: take_0)
qed

subsection \<open>The posterior on finite votes\<close>

lemma fsum_Fin_from: "foldl fadd (Fin a) (map Fin xs) = Fin (a + sum_list xs)"
  by (induction xs arbitrary: a) (simp_all add: add.assoc)

lemma fsum_Fin: "fsum (map Fin xs) = Fin (sum_list xs)"
  by (simp add: fsum_def fsum_Fin_from)

lemma is_fin_map: "list_all is_fin xs \<Longrightarrow> xs = map Fin (map the_fin xs)"
proof (induction xs)
  case Nil then show ?case by simp
next
  case (Cons x xs) then show ?case by (cases x) simp_all
qed

lemma stretch_same: "length xs = n \<Longrightarrow> stretch n xs = xs"
  by (simp add: stretch_def)

lemma posterior_aligned:
  assumes "np_bincount y = Inr cc" and "length cc = C" and "length prior = C"
  shows "posterior y prior C V
           = Inr (C, map (\<lambda>row. normalize_row
                      (map2 fmul (map2 fdiv (stretch C row) (map (\<lambda>k. Fin (real k)) cc)) prior)) V)"
  using assms by (simp add: posterior_def rows_op_def np_broadcast_def stretch_same)

lemma np_bincount_counts:
  assumes "y \<noteq> []" and "list_all (\<lambda>l. l < C) y" and "list_all (\<lambda>c. 0 < count_list y c) [0..<C]"
  shows "np_bincount y = Inr (map (count_list y) [0..<C])"
proof -
  obtain cc where cc: "np_bincount y = Inr cc" using assms(1) by (simp add: np_bincount_def)
  have "amax y \<in> set y" using assms(1) by (rule amax_in)
  then have le: "Suc (amax y) \<le> C" using assms(2) by (auto simp: list_all_iff)
  have "C \<le> Suc (amax y)"
  proof (cases C)
    case 0 then show ?thesis by simp
  next
    case (Suc k)
    then have "0 < count_list y k" using assms(3) by (simp add: list_all_iff)
    then have "k \<in> set y" using count_list_0_iff[of y k] by auto
    then have "k \<le> amax y" by (rule amax_ge)
    then show ?thesis using Suc by simp
  qed
  then have len: "length cc = C" using np_bincount_length[OF assms(1) cc] le by simp
  have "cc = map (count_list y) [0..<C]"
    using len np_bincount_nth[OF cc] by (intro nth_equalityI) simp_all
  then show ?thesis using cc by simp
qed

text \<open>One row through the posterior, on finite values.\<close>

lemma map2_fdiv_Fin:
  "list_all (\<lambda>b. b \<noteq> 0) bs \<Longrightarrow>
   map2 fdiv (map Fin as) (map Fin bs) = map Fin (map2 (/) as bs)"
proof (induction as arbitrary: bs)
  case Nil then show ?case by simp
next
  case (Cons a as) then show ?case by (cases bs) simp_all
qed

lemma map2_fmul_Fin: "map2 fmul (map Fin as) (map Fin bs) = map Fin (map2 (*) as bs)"
proof (induction as arbitrary: bs)
  case Nil then show ?case by simp
next
  case (Cons a as) then show ?case by (cases bs) simp_all
qed

lemma normalize_row_Fin:
  "sum_list xs \<noteq> 0 \<Longrightarrow> normalize_row (map Fin xs) = map (\<lambda>x. Fin (x / sum_list xs)) xs"
  by (simp add: normalize_row_def fsum_Fin)

lemma adjusted_row:
  assumes "length votes = C" and "length prior = C"
  shows "map2 (*) (map2 (/) votes (map (\<lambda>k. real k) (map (count_list y) [0..<C]))) prior
           = map (adjusted votes y prior) [0..<C]"
  using assms by (intro nth_equalityI) (simp_all add: adjusted_def classCount_def)

lemma posterior_row_formula:
  assumes "length votes = C" and "length prior = C"
      and "list_all (\<lambda>c. 0 < count_list y c) [0..<C]"
      and "sum_list (map (adjusted votes y prior) [0..<C]) \<noteq> 0"
  shows "normalize_row (map2 fmul (map2 fdiv (stretch C (map Fin votes))
            (map (\<lambda>k. Fin (real k)) (map (count_list y) [0..<C]))) (map Fin prior))
         = map (\<lambda>c. Fin (probability votes y prior C c)) [0..<C]"
proof -
  let ?cc = "map (\<lambda>k. real k) (map (count_list y) [0..<C])"
  have nz: "list_all (\<lambda>b. b \<noteq> 0) ?cc"
    using assms(3) by (auto simp: list_all_iff)
  have "map (\<lambda>k. Fin (real k)) (map (count_list y) [0..<C]) = map Fin ?cc" by simp
  then have "map2 fmul (map2 fdiv (stretch C (map Fin votes))
            (map (\<lambda>k. Fin (real k)) (map (count_list y) [0..<C]))) (map Fin prior)
        = map2 fmul (map2 fdiv (map Fin votes) (map Fin ?cc)) (map Fin prior)"
    using assms(1) by (simp add: stretch_same comp_def)
  also have "\<dots> = map Fin (map2 (*) (map2 (/) votes ?cc) prior)"
    using nz by (simp only: map2_fdiv_Fin map2_fmul_Fin)
  also have "\<dots> = map Fin (map (adjusted votes y prior) [0..<C])"
    using adjusted_row[OF assms(1,2)] by simp
  finally have "normalize_row (map2 fmul (map2 fdiv (stretch C (map Fin votes))
            (map (\<lambda>k. Fin (real k)) (map (count_list y) [0..<C]))) (map Fin prior))
        = normalize_row (map Fin (map (adjusted votes y prior) [0..<C]))" by simp
  also have "\<dots> = map (\<lambda>x. Fin (x / sum_list (map (adjusted votes y prior) [0..<C])))
                      (map (adjusted votes y prior) [0..<C])"
    using assms(4) by (rule normalize_row_Fin)
  also have "\<dots> = map (\<lambda>c. Fin (probability votes y prior C c)) [0..<C]"
    by (simp add: probability_def)
  finally show ?thesis .
qed


lemma posterior_rows_formula:
  assumes "y \<noteq> []" and "list_all (\<lambda>l. l < C) y"
      and "list_all (\<lambda>c. 0 < count_list y c) [0..<C]"
      and "length prior = C" and "list_all (\<lambda>row. length row = C) votes"
  shows "\<exists>P. posterior y (map Fin prior) C (map (map Fin) votes) = Inr (C, P)
           \<and> length P = length votes
           \<and> (\<forall>r < length votes.
                 sum_list (map (adjusted (votes ! r) y prior) [0..<C]) \<noteq> 0
                 \<longrightarrow> P ! r = map (\<lambda>c. Fin (probability (votes ! r) y prior C c)) [0..<C])"
proof -
  let ?cc = "map (count_list y) [0..<C]"
  let ?f = "\<lambda>row. normalize_row
              (map2 fmul (map2 fdiv (stretch C row) (map (\<lambda>k. Fin (real k)) ?cc)) (map Fin prior))"
  have b: "np_bincount y = Inr ?cc" using assms(1,2,3) by (rule np_bincount_counts)
  have p: "posterior y (map Fin prior) C (map (map Fin) votes)
             = Inr (C, map ?f (map (map Fin) votes))"
    using assms(4) by (intro posterior_aligned[OF b]) simp_all
  have "map ?f (map (map Fin) votes) ! r
          = map (\<lambda>c. Fin (probability (votes ! r) y prior C c)) [0..<C]"
    if "r < length votes" "sum_list (map (adjusted (votes ! r) y prior) [0..<C]) \<noteq> 0" for r
  proof -
    have "length (votes ! r) = C" using assms(5) that(1) by (simp add: list_all_length)
    then have "?f (map Fin (votes ! r)) = map (\<lambda>c. Fin (probability (votes ! r) y prior C c)) [0..<C]"
      using assms(3,4) that(2) by (intro posterior_row_formula) simp_all
    then show ?thesis using that(1) by simp
  qed
  then show ?thesis using p by simp
qed

lemma sum_list_nonneg_real: "list_all (\<lambda>x. 0 \<le> x) xs \<Longrightarrow> 0 \<le> sum_list xs" for xs :: "real list"
  by (induction xs) auto

lemma member_le_sum_list_real:
  "list_all (\<lambda>x. 0 \<le> x) xs \<Longrightarrow> x \<in> set xs \<Longrightarrow> x \<le> sum_list xs" for xs :: "real list"
proof (induction xs)
  case Nil then show ?case by simp
next
  case (Cons a xs)
  then have "0 \<le> a" "0 \<le> sum_list xs" by (simp_all add: sum_list_nonneg_real)
  then show ?case using Cons by auto
qed

lemma sum_list_pos_real:
  "list_all (\<lambda>x. 0 \<le> x) xs \<Longrightarrow> x \<in> set xs \<Longrightarrow> 0 < x \<Longrightarrow> 0 < sum_list xs" for xs :: "real list"
  using member_le_sum_list_real[of xs x] by simp

lemma sum_list_divide_real: "sum_list (map (\<lambda>x. x / s) xs) = sum_list xs / s" for xs :: "real list"
  by (induction xs) (simp_all add: add_divide_distrib)

lemma normalized_distribution:
  assumes "list_all (\<lambda>x. 0 \<le> x) xs" and "0 < sum_list xs"
  shows "fsum (map (\<lambda>x. Fin (x / sum_list xs)) xs) = Fin 1
         \<and> list_all (\<lambda>x. is_fin x \<and> 0 \<le> the_fin x \<and> the_fin x \<le> 1) (map (\<lambda>x. Fin (x / sum_list xs)) xs)"
proof -
  have "map (\<lambda>x. Fin (x / sum_list xs)) xs = map Fin (map (\<lambda>x. x / sum_list xs) xs)" by simp
  then have "fsum (map (\<lambda>x. Fin (x / sum_list xs)) xs) = Fin (sum_list (map (\<lambda>x. x / sum_list xs) xs))"
    by (simp only: fsum_Fin)
  also have "\<dots> = Fin 1" using assms(2) by (simp add: sum_list_divide_real)
  finally have a: "fsum (map (\<lambda>x. Fin (x / sum_list xs)) xs) = Fin 1" .
  have "0 \<le> x / sum_list xs \<and> x / sum_list xs \<le> 1" if "x \<in> set xs" for x
  proof -
    have "0 \<le> x" using assms(1) that by (simp add: list_all_iff)
    moreover have "x \<le> sum_list xs" using assms(1) that by (rule member_le_sum_list_real)
    ultimately show ?thesis using assms(2) by simp
  qed
  then have "list_all (\<lambda>x. is_fin x \<and> 0 \<le> the_fin x \<and> the_fin x \<le> 1) (map (\<lambda>x. Fin (x / sum_list xs)) xs)"
    by (simp add: list_all_iff)
  then show ?thesis using a by simp
qed

text \<open>Finite weights give finite votes.\<close>

lemma label_weights_Fin:
  "label_weights c ls (map Fin ws) = map Fin (map snd (filter (\<lambda>lw. fst lw = c) (zip ls ws)))"
  unfolding label_weights_def
proof (induction ls arbitrary: ws)
  case Nil then show ?case by simp
next
  case (Cons l ls) then show ?case by (cases ws) simp_all
qed

lemma aggregate_Fin: "aggregate ls (map Fin ws) C = map Fin (agg_real ls ws C)"
proof -
  have "fsum (label_weights c ls (map Fin ws))
          = Fin (sum_list (map snd (filter (\<lambda>lw. fst lw = c) (zip ls ws))))" for c
    by (simp only: label_weights_Fin fsum_Fin)
  then show ?thesis by (simp add: aggregate_def agg_real_def)
qed

lemma agg_real_nonneg:
  assumes "list_all (\<lambda>x. 0 \<le> x) ws"
  shows "list_all (\<lambda>x. 0 \<le> x) (agg_real ls ws C)"
proof -
  have "0 \<le> sum_list (map snd (filter (\<lambda>lw. fst lw = c) (zip ls ws)))" for c
    using assms by (intro sum_list_nonneg_real) (auto simp: list_all_iff dest: set_zip_rightD)
  then show ?thesis by (simp add: agg_real_def list_all_iff)
qed

lemma adjusted_nonneg:
  assumes "list_all (\<lambda>x. 0 \<le> x) votes" and "list_all (\<lambda>p. 0 < p) prior"
      and "length votes = C" and "length prior = C"
  shows "list_all (\<lambda>x. 0 \<le> x) (map (adjusted votes y prior) [0..<C])"
proof -
  have "0 \<le> adjusted votes y prior c" if "c < C" for c
  proof -
    have "0 \<le> votes ! c" using assms(1,3) that by (simp add: list_all_length)
    moreover have "0 \<le> prior ! c" using assms(2,4) that by (simp add: list_all_length less_imp_le)
    ultimately show ?thesis
      unfolding adjusted_def classCount_def
      by (intro mult_nonneg_nonneg divide_nonneg_nonneg) simp_all
  qed
  then show ?thesis by (simp add: list_all_iff)
qed

lemma adjusted_sum_pos:
  assumes "list_all (\<lambda>x. 0 \<le> x) votes" and "list_all (\<lambda>p. 0 < p) prior"
      and "length votes = C" and "length prior = C"
      and "list_all (\<lambda>c. 0 < count_list y c) [0..<C]"
      and "\<not> list_all (\<lambda>v. v = 0) votes"
  shows "0 < sum_list (map (adjusted votes y prior) [0..<C])"
proof -
  from assms(6) obtain c where c: "c < length votes" "votes ! c \<noteq> 0"
    by (auto simp: list_all_length)
  then have "0 < votes ! c" using assms(1) by (auto simp: list_all_length less_le)
  moreover have "0 < real (count_list y c)" using assms(3,5) c(1) by (simp add: list_all_iff)
  moreover have "0 < prior ! c" using assms(2,3,4) c(1) by (simp add: list_all_length)
  ultimately have "0 < adjusted votes y prior c" by (simp add: adjusted_def classCount_def)
  moreover have "adjusted votes y prior c \<in> set (map (adjusted votes y prior) [0..<C])"
    using c(1) assms(3) by simp
  ultimately show ?thesis
    using adjusted_nonneg[OF assms(1,2,3,4)] sum_list_pos_real by blast
qed

lemma knn_weights_shape:
  "knn_weights g (map (map f) M) = knn_weights g M"
  by (cases g) (simp_all add: knn_weights_def comp_def)

lemma ncols_map [simp]: "ncols (map (map f) M) = ncols M"
  by (cases M) simp_all

lemma length_agg_real [simp]: "length (agg_real ls ws C) = C"
  by (simp add: agg_real_def)

lemma knn_pipeline:
  assumes y: "list_all (\<lambda>l. l < C) y"
      and ind: "list_all (list_all (\<lambda>j. j < length y)) ni"
               "list_all (\<lambda>ind. length ind = ncols ni) ni"
      and w: "list_all2 (\<lambda>ind ws. length ws = length ind) ni w"
  shows "mapE (gather y) ni = Inr (map (map (\<lambda>j. y ! j)) ni)"
    and "knn_votes C (map (map Fin) w) (map (map (\<lambda>j. y ! j)) ni)
           = Inr (map (map Fin) (map (\<lambda>r. agg_real (map (\<lambda>j. y ! j) (ni ! r)) (w ! r) C) [0..<length ni]))"
proof -
  let ?L = "map (map (\<lambda>j. y ! j)) ni" and ?W = "map (map Fin) w"
  show "mapE (gather y) ni = Inr ?L" using ind(1) by (rule gather_rows_in_range)
  have n: "length ?W = length ?L" using w by (simp add: list_all2_lengthD)
  have wr: "\<forall>r < length ?L. length (?W ! r) = length (?L ! r)"
    using w by (simp add: list_all2_conv_all_nth)
  have lab: "list_all (list_all (\<lambda>l. l < C)) ?L"
    using y ind(1) by (auto simp: list_all_iff)
  have rect: "list_all (\<lambda>ls. length ls = ncols ?L) ?L"
    using ind(2) by (simp add: list_all_iff)
  have "map (\<lambda>r. aggregate (?L ! r) (?W ! r) C) [0..<length ?L]
          = map (map Fin) (map (\<lambda>r. agg_real (map (\<lambda>j. y ! j) (ni ! r)) (w ! r) C) [0..<length ni])"
    using n by (intro nth_equalityI) (simp_all add: aggregate_Fin)
  then show "knn_votes C ?W ?L
           = Inr (map (map Fin) (map (\<lambda>r. agg_real (map (\<lambda>j. y ! j) (ni ! r)) (w ! r) C) [0..<length ni]))"
    using knn_votes_aggregate[OF n rect wr lab] by simp
qed


subsection \<open>The default prior\<close>

lemma default_class_prior_Fin:
  "y \<noteq> [] \<Longrightarrow>
   default_class_prior y C = map Fin (map (\<lambda>c. real (count_list y c) / real (length y)) [0..<C])"
  by (simp add: default_class_prior_def)

lemma fdiv_scaled:
  assumes "0 < n"
  shows "fdiv (Fin (x / n)) (Fin (s / n)) = fdiv (Fin x) (Fin s)"
proof (cases "s = 0")
  case True
  then show ?thesis using assms by (simp add: sgn_real_def zero_less_divide_iff)
next
  case False
  then show ?thesis using assms by simp
qed

lemma normalize_row_scaled:
  assumes "0 < n"
  shows "normalize_row (map Fin (map (\<lambda>x. x / n) xs)) = plain_probability (map Fin xs)"
proof -
  have "fsum (map Fin (map (\<lambda>x. x / n) xs)) = Fin (sum_list xs / n)"
    by (simp only: fsum_Fin sum_list_divide_real)
  then show ?thesis
    using assms by (simp add: normalize_row_def plain_probability_def fsum_Fin fdiv_scaled)
qed

lemma default_prior_row:
  assumes "y \<noteq> []" and "length votes = C" and "list_all (\<lambda>c. 0 < count_list y c) [0..<C]"
  shows "normalize_row (map2 fmul (map2 fdiv (stretch C (map Fin votes))
            (map (\<lambda>k. Fin (real k)) (map (count_list y) [0..<C]))) (default_class_prior y C))
         = plain_probability (map Fin votes)"
proof -
  let ?cc = "map (\<lambda>k. real k) (map (count_list y) [0..<C])"
  let ?pr = "map (\<lambda>c. real (count_list y c) / real (length y)) [0..<C]"
  have n: "0 < real (length y)" using assms(1) by simp
  have nz: "list_all (\<lambda>b. b \<noteq> 0) ?cc"
    using assms(3) by (auto simp: list_all_iff)
  have "map2 fmul (map2 fdiv (stretch C (map Fin votes))
            (map (\<lambda>k. Fin (real k)) (map (count_list y) [0..<C]))) (default_class_prior y C)
        = map2 fmul (map2 fdiv (map Fin votes) (map Fin ?cc)) (map Fin ?pr)"
    using assms(1,2) by (simp add: stretch_same comp_def default_class_prior_Fin)
  also have "\<dots> = map Fin (map2 (*) (map2 (/) votes ?cc) ?pr)"
    using nz by (simp only: map2_fdiv_Fin map2_fmul_Fin)
  also have "map2 (*) (map2 (/) votes ?cc) ?pr = map (\<lambda>x. x / real (length y)) votes"
  proof (rule nth_equalityI)
    show "length (map2 (*) (map2 (/) votes ?cc) ?pr) = length (map (\<lambda>x. x / real (length y)) votes)"
      using assms(2) by simp
  next
    fix c assume "c < length (map2 (*) (map2 (/) votes ?cc) ?pr)"
    then have c: "c < C" using assms(2) by simp
    then have "0 < count_list y c" using assms(3) by (simp add: list_all_iff)
    then show "map2 (*) (map2 (/) votes ?cc) ?pr ! c = map (\<lambda>x. x / real (length y)) votes ! c"
      using c assms(2) by simp
  qed
  finally show ?thesis using normalize_row_scaled[OF n] by simp
qed

lemma posterior_default_prior:
  assumes "y \<noteq> []" and "list_all (\<lambda>l. l < C) y"
      and "list_all (\<lambda>c. 0 < count_list y c) [0..<C]"
      and "list_all (\<lambda>row. length row = C) V" and "list_all (list_all is_fin) V"
  shows "posterior y (default_class_prior y C) C V = Inr (C, map plain_probability V)"
proof -
  let ?cc = "map (count_list y) [0..<C]"
  let ?f = "\<lambda>row. normalize_row
              (map2 fmul (map2 fdiv (stretch C row) (map (\<lambda>k. Fin (real k)) ?cc))
                 (default_class_prior y C))"
  have b: "np_bincount y = Inr ?cc" using assms(1,2,3) by (rule np_bincount_counts)
  have p: "posterior y (default_class_prior y C) C V = Inr (C, map ?f V)"
    by (intro posterior_aligned[OF b]) (simp_all add: default_class_prior_def)
  have "?f row = plain_probability row" if "row \<in> set V" for row
  proof -
    have fin: "row = map Fin (map the_fin row)"
      using assms(5) that by (intro is_fin_map) (simp add: list_all_iff)
    have "length (map the_fin row) = C" using assms(4) that by (simp add: list_all_iff)
    from default_prior_row[OF assms(1) this assms(3)] show ?thesis using fin by simp
  qed
  then have "map ?f V = map plain_probability V" by (intro map_cong) simp_all
  then show ?thesis using p by simp
qed

lemma radius_vote_row_length: "radius_vote_row c w ip = Inr row \<Longrightarrow> length row = c"
  by (auto simp: radius_vote_row_def split: if_splits sum.splits)

lemma radius_votes_row_length:
  assumes "radius_votes c w pl = Inr V"
  shows "list_all (\<lambda>row. length row = c) V"
proof -
  have "length (V ! r) = c" if "r < length V" for r
  proof -
    have r: "r < length pl" using that radius_votes_length[OF assms] by simp
    from radius_votes_row[OF assms r] show ?thesis by (rule radius_vote_row_length)
  qed
  then show ?thesis by (simp add: list_all_length)
qed


section \<open>The claims\<close>

subsection \<open>The class counts\<close>



subsection \<open>Query points without a neighbour\<close>

text \<open>
  Claim C5. In \<^verbatim>\<open>RadiusNeighborsClassifier.predict\<close>, when no outlier label is
  configured (\<^verbatim>\<open>if self.outlier_label:\<close> is false) and the neighbour indices are
  positions of the training array, a query point without a neighbour makes the whole
  call fail with the no-neighbours ValueError. The check of lines 336--344 fails itself,
  so nothing after it runs: the result is this error and no label sequence whatever the
  weights, the distances, the prior and the classes are, also where they would make a
  later step fail in another way.
\<close>

theorem radius_no_neighbors_aborts:
  assumes "\<not> truthy (self_outlier_label m)"
      and "list_all (list_all (\<lambda>j. j < length (self_y m))) (neigh_ind q)"
      and "list_ex (\<lambda>ind. length ind < 1) (neigh_ind q)"
  shows "RadiusNeighborsClassifier_predict m q = Inl NoNeighborsError
         \<and> RadiusNeighborsClassifier_predict
              (m\<lparr>class_prior := prior, self_classes := cls\<rparr>)
              (q\<lparr>get_weights := w, neigh_dist := d\<rparr>) = Inl NoNeighborsError"
proof -
  let ?pl = "map (map (\<lambda>j. self_y m ! j)) (neigh_ind q)"
  have g: "mapE (gather (self_y m)) (neigh_ind q) = Inr ?pl"
    using assms(2) by (rule gather_rows_in_range)
  have "[] \<in> set ?pl"
    using assms(3) by (force simp: list_ex_iff)
  then have "radius_outliers (self_outlier_label m) ?pl = Inl NoNeighborsError"
    using assms(1) by (rule radius_outliers_falsy[rotated])
  then show ?thesis by (simp add: RadiusNeighborsClassifier_predict_def g)
qed

theorem radius_no_neighbors_aborts_witness:
  "\<not> truthy (self_outlier_label (doc_fitted [Fin (1/2), Fin (1/2)] None))
   \<and> list_all (list_all (\<lambda>j. j < length (self_y (doc_fitted [Fin (1/2), Fin (1/2)] None))))
        (neigh_ind doc_query)
   \<and> list_ex (\<lambda>ind. length ind < 1) (neigh_ind doc_query)
   \<and> RadiusNeighborsClassifier_predict (doc_fitted [Fin (1/2), Fin (1/2)] None) doc_query
       = Inl NoNeighborsError"
proof -
  have h1: "\<not> truthy (self_outlier_label (doc_fitted [Fin (1/2), Fin (1/2)] None))"
    by (simp add: doc_fitted_def)
  have h2: "list_all (list_all (\<lambda>j. j < length (self_y (doc_fitted [Fin (1/2), Fin (1/2)] None))))
        (neigh_ind doc_query)"
    by (simp add: doc_fitted_def doc_query_def)
  have h3: "list_ex (\<lambda>ind. length ind < 1) (neigh_ind doc_query)"
    by (simp add: doc_query_def)
  show ?thesis using h1 h2 h3 radius_no_neighbors_aborts[OF h1 h2 h3] by blast
qed

text \<open>
  Claim C6. The docstring gives the outlier label to every sample without a neighbour
  unless the label is \<^verbatim>\<open>None\<close>. The test at lines 330 and 380 is
  \<^verbatim>\<open>if self.outlier_label:\<close>, which is also false for the label 0: with
  \<^verbatim>\<open>outlier_label=0\<close>, a query point without a neighbour raises the no-neighbours
  ValueError instead of being labelled 0.
\<close>

theorem radius_outlier_label_zero_raises:
  "RadiusNeighborsClassifier_predict (doc_fitted [Fin (1/2), Fin (1/2)] (Some 0)) doc_query
     = Inl NoNeighborsError"
  by (simp add: doc_eval)

text \<open>
  Claim C10. With an outlier label for which \<^verbatim>\<open>if self.outlier_label:\<close> is true,
  every row of a query point without a neighbour holds that label in the returned
  sequence, whether or not it is one of \<^verbatim>\<open>self._classes\<close>; and there is a fitted
  model, a query and a label outside the classes for which the returned sequence holds
  that label.
\<close>

theorem radius_outlier_label_unchecked:
  "(\<forall>m q preds l r.
      RadiusNeighborsClassifier_predict m q = Inr preds \<and> self_outlier_label m = Some l
        \<and> l \<noteq> 0 \<and> r < length (neigh_ind q) \<and> length (neigh_ind q ! r) < 1
      \<longrightarrow> r < length preds \<and> preds ! r = l)
   \<and> (\<exists>m q preds l.
        self_outlier_label m = Some l \<and> truthy (Some l) \<and> l \<notin> set (self_classes m)
        \<and> RadiusNeighborsClassifier_predict m q = Inr preds \<and> l \<in> set preds)"
proof (intro conjI allI impI exI)
  fix m q preds l r
  assume "RadiusNeighborsClassifier_predict m q = Inr preds \<and> self_outlier_label m = Some l
        \<and> l \<noteq> 0 \<and> r < length (neigh_ind q) \<and> length (neigh_ind q ! r) < 1"
  then show "r < length preds" and "preds ! r = l"
    using radius_predict_outlier_label[of m q preds l r] by simp_all
next
  show "self_outlier_label (doc_fitted [Fin (3/4), Fin (1/4)] (Some 5)) = Some 5"
    by (simp add: doc_fitted_def)
  show "truthy (Some 5)" by simp
  show "5 \<notin> set (self_classes (doc_fitted [Fin (3/4), Fin (1/4)] (Some 5)))"
    by (simp add: doc_fitted_def)
  show "RadiusNeighborsClassifier_predict (doc_fitted [Fin (3/4), Fin (1/4)] (Some 5)) doc_query
          = Inr [5, 0]"
    by (simp add: doc_eval)
  show "5 \<in> set [5, 0 :: int]" by simp
qed

theorem radius_outlier_label_unchecked_witness:
  "RadiusNeighborsClassifier_predict (doc_fitted [Fin (3/4), Fin (1/4)] (Some 5)) doc_query
     = Inr [5, 0]
   \<and> self_outlier_label (doc_fitted [Fin (3/4), Fin (1/4)] (Some 5)) = Some 5
   \<and> length (neigh_ind doc_query ! 0) < 1
   \<and> [5, 0] ! 0 = (5 :: int)
   \<and> 5 \<notin> set (self_classes (doc_fitted [Fin (3/4), Fin (1/4)] (Some 5)))"
proof -
  let ?m = "doc_fitted [Fin (3/4), Fin (1/4)] (Some 5)"
  have p: "RadiusNeighborsClassifier_predict ?m doc_query = Inr [5, 0]"
    by (simp add: doc_eval)
  have l: "self_outlier_label ?m = Some 5" by (simp add: doc_fitted_def)
  have r: "0 < length (neigh_ind doc_query)" "length (neigh_ind doc_query ! 0) < 1"
    by (simp_all add: doc_query_def)
  have "0 < length [5, 0 :: int] \<and> [5, 0] ! 0 = (5 :: int)"
    using radius_outlier_label_unchecked [THEN conjunct1, rule_format, of ?m doc_query "[5, 0]" 5 0]
      p l r by simp
  moreover have "5 \<notin> set (self_classes ?m)" by (simp add: doc_fitted_def)
  ultimately show ?thesis using p l r by blast
qed

text \<open>
  Claim C7, as the spec states it, fails: with an outlier label configured, the row of a
  query point without a neighbour is skipped by the vote loop only (line 360). It stays
  in the matrix as a row of zeros, and lines 372 and 375 divide the whole matrix: on the
  docstring's training set, the row of the query point without a neighbour is
  \<open>[0, 0]\<close> after the vote loop and \<open>[NaN, NaN]\<close> after line 375, each entry being
  0/0.
\<close>

theorem radius_outlier_row_is_normalized:
  "truthy (self_outlier_label (doc_fitted [Fin (3/4), Fin (1/4)] (Some 5)))
   \<and> mapE (gather (self_y (doc_fitted [Fin (3/4), Fin (1/4)] (Some 5)))) (neigh_ind doc_query)
       = Inr [[], [1, 0, 1]]
   \<and> radius_votes 2 (radius_weights doc_query) [[], [1, 0, 1]]
       = Inr [[Fin 0, Fin 0], [Fin 1, Fin 2]]
   \<and> radius_probabilities (doc_fitted [Fin (3/4), Fin (1/4)] (Some 5)) doc_query [[], [1, 0, 1]]
       = Inr (2, [[NaN, NaN], [Fin (3/5), Fin (2/5)]])
   \<and> normalize_row [Fin 0, Fin 0] = [fdiv (Fin 0) (Fin 0), fdiv (Fin 0) (Fin 0)]
   \<and> fdiv (Fin 0) (Fin 0) = NaN"
  by (simp add: doc_eval numeral_2_eq_2)

text \<open>
  Claim C7, amended. With an outlier label for which \<^verbatim>\<open>if self.outlier_label:\<close> is
  true, the row of a query point without a neighbour is skipped by the vote loop only;
  the posterior of lines 368--375 is applied to it as to every row, which makes each of
  its entries NaN (0/0), and the label computed from it is then replaced by the outlier
  label, so the returned prediction of the row is the outlier label.
\<close>

theorem radius_outlier_row_nan_then_label:
  assumes "RadiusNeighborsClassifier_predict m q = Inr preds"
      and "self_outlier_label m = Some l" and "l \<noteq> 0"
      and "mapE (gather (self_y m)) (neigh_ind q) = Inr pred_labels"
      and "radius_probabilities m q pred_labels = Inr (c, P)"
      and "r < length pred_labels" and "length (pred_labels ! r) < 1"
  shows "0 < c \<and> P ! r = replicate c NaN \<and> preds ! r = l"
proof -
  have lpl: "length pred_labels = length (neigh_ind q)" using mapE_Inr_length[OF assms(4)] .
  have e: "pred_labels ! r = []" using assms(7) by simp
  then have "neigh_ind q ! r = []" using gather_rows_nth_Nil[OF assms(4)] assms(6) lpl by simp
  then have "preds ! r = l"
    using radius_predict_outlier_label[OF assms(1,2,3), of r] assms(6) lpl by simp
  moreover have "P ! r = replicate c NaN"
    using radius_probabilities_outlier_row[OF assms(5,6) e] .
  moreover have "0 < c"
    using radius_predict_Inr_D[OF assms(1)] assms(4,5)
    by (auto simp: argmax_classes_def split: if_splits)
  ultimately show ?thesis by simp
qed

theorem radius_outlier_row_nan_then_label_witness:
  "RadiusNeighborsClassifier_predict (doc_fitted [Fin (3/4), Fin (1/4)] (Some 5)) doc_query
     = Inr [5, 0]
   \<and> radius_probabilities (doc_fitted [Fin (3/4), Fin (1/4)] (Some 5)) doc_query [[], [1, 0, 1]]
       = Inr (2, [[NaN, NaN], [Fin (3/5), Fin (2/5)]])
   \<and> (0 :: nat) < 2 \<and> [[NaN, NaN], [Fin (3/5), Fin (2/5)]] ! 0 = replicate 2 NaN
   \<and> [5, 0] ! 0 = (5 :: int)"
proof -
  let ?m = "doc_fitted [Fin (3/4), Fin (1/4)] (Some 5)"
  have h1: "RadiusNeighborsClassifier_predict ?m doc_query = Inr [5, 0]"
    by (simp add: doc_eval)
  have h2: "self_outlier_label ?m = Some 5" and h3: "(5 :: int) \<noteq> 0"
    by (simp_all add: doc_fitted_def)
  have h4: "mapE (gather (self_y ?m)) (neigh_ind doc_query) = Inr [[], [1, 0, 1]]"
    by (simp add: doc_eval)
  have h5: "radius_probabilities ?m doc_query [[], [1, 0, 1]]
              = Inr (2, [[NaN, NaN], [Fin (3/5), Fin (2/5)]])"
    by (simp add: doc_eval)
  have h6: "0 < length [[], [1, 0, 1 :: nat]]" and h7: "length ([[], [1, 0, 1 :: nat]] ! 0) < 1"
    by simp_all
  from radius_outlier_row_nan_then_label[OF h1 h2 h3 h4 h5 h6 h7]
  show ?thesis using h1 h5 by blast
qed

subsection \<open>The predicted label of a tie\<close>

text \<open>
  Claim C4. \<^verbatim>\<open>self._classes\<close> is sorted in ascending order. In both classifiers the
  label predicted for a row of probabilities without NaN is the class of a largest
  entry, and every class whose entry is equal to it (every maximizer) has a label that is
  not smaller: among tied classes the lowest label is returned. The result is a function
  of the row, so nothing random enters.
\<close>

theorem predict_tie_lowest_label:
  assumes "sorted_wrt (<) (self_classes m)"
      and "(KNeighborsClassifier_predict_proba m q = Inr (c, P)
              \<and> KNeighborsClassifier_predict m q = Inr preds)
           \<or> (\<exists>pred_labels. mapE (gather (self_y m)) (neigh_ind q) = Inr pred_labels
                 \<and> radius_probabilities m q pred_labels = Inr (c, P)
                 \<and> RadiusNeighborsClassifier_predict m q = Inr preds)"
      and "r < length P" and "list_all (\<lambda>x. x \<noteq> NaN) (P ! r)"
  shows "\<exists>i < length (P ! r). i < length (self_classes m) \<and> preds ! r = self_classes m ! i
            \<and> (\<forall>j < length (P ! r). fle (P ! r ! j) (P ! r ! i))
            \<and> (\<forall>j < length (P ! r). j < length (self_classes m) \<longrightarrow> P ! r ! j = P ! r ! i
                   \<longrightarrow> self_classes m ! i \<le> self_classes m ! j)"
  using assms(2)
proof (elim disjE conjE exE)
  assume "KNeighborsClassifier_predict_proba m q = Inr (c, P)"
    and "KNeighborsClassifier_predict m q = Inr preds"
  then have "argmax_classes (self_classes m) (c, P) = Inr preds"
    by (simp add: KNeighborsClassifier_predict_def)
  from argmax_classes_tie_break[OF assms(1) this assms(3,4)] show ?thesis .
next
  fix pl
  assume g: "mapE (gather (self_y m)) (neigh_ind q) = Inr pl"
    and p: "radius_probabilities m q pl = Inr (c, P)"
    and ok: "RadiusNeighborsClassifier_predict m q = Inr preds"
  from radius_predict_Inr_D[OF ok] g p obtain os preds0 where
    o: "radius_outliers (self_outlier_label m) pl = Inr os"
    and a: "argmax_classes (self_classes m) (c, P) = Inr preds0"
    and pr: "preds = (case self_outlier_label m of
                       Some l \<Rightarrow> if l \<noteq> 0 then set_outliers preds0 os l else preds0
                     | None \<Rightarrow> preds0)"
    by auto
  have c: "0 < c" using a by (auto simp: argmax_classes_def split: if_splits)
  have lP: "length P = length pl" using radius_probabilities_length[OF p] by simp
  have l0: "length preds0 = length P" using argmax_classes_length[OF a] by simp
  have ne: "pl ! r \<noteq> []"
  proof
    assume "pl ! r = []"
    then have "P ! r = replicate c NaN"
      using radius_probabilities_outlier_row[OF p] assms(3) lP by simp
    then show False using assms(4) c by (cases c) auto
  qed
  have "r \<notin> set os" using o ne by (auto simp: radius_outliers_def split: if_splits)
  then have "preds ! r = preds0 ! r"
    using pr assms(3) l0 by (auto simp: set_outliers_nth split: option.splits)
  then show ?thesis
    using argmax_classes_tie_break[OF assms(1) a assms(3,4)] by simp
qed

theorem predict_tie_lowest_label_witness:
  "sorted_wrt (<) (self_classes (doc_fitted [Fin (1/2), Fin (1/2)] None))
   \<and> KNeighborsClassifier_predict_proba (doc_fitted [Fin (1/2), Fin (1/2)] None) tie_query
       = Inr (2, [[Fin (1/2), Fin (1/2)]])
   \<and> KNeighborsClassifier_predict (doc_fitted [Fin (1/2), Fin (1/2)] None) tie_query = Inr [0]
   \<and> radius_probabilities (doc_fitted [Fin (1/2), Fin (1/2)] None) tie_query [[0, 1]]
       = Inr (2, [[Fin (1/2), Fin (1/2)]])
   \<and> RadiusNeighborsClassifier_predict (doc_fitted [Fin (1/2), Fin (1/2)] None) tie_query = Inr [0]
   \<and> (\<exists>i < 2. [0] ! 0 = [0, 1 :: int] ! i \<and> [0, 1 :: int] ! i \<le> 0 \<and> [0, 1 :: int] ! i \<le> 1)"
proof -
  let ?m = "doc_fitted [Fin (1/2), Fin (1/2)] None"
  let ?P = "[[Fin (1/2), Fin (1/2)]]"
  have h1: "sorted_wrt (<) (self_classes ?m)" by (simp add: doc_fitted_def)
  have k1: "KNeighborsClassifier_predict_proba ?m tie_query = Inr (2, ?P)"
    by (simp add: doc_eval tie_query_def)
  have k2: "KNeighborsClassifier_predict ?m tie_query = Inr [0]"
    by (simp add: doc_eval tie_query_def)
  have r2: "RadiusNeighborsClassifier_predict ?m tie_query = Inr [0]"
    by (simp add: doc_eval tie_query_def)
  have r0: "mapE (gather (self_y ?m)) (neigh_ind tie_query) = Inr [[0, 1]]"
    by (simp add: doc_eval tie_query_def)
  have r1: "radius_probabilities ?m tie_query [[0, 1]] = Inr (2, ?P)"
    by (simp add: doc_eval tie_query_def)
  have h2: "(KNeighborsClassifier_predict_proba ?m tie_query = Inr (2, ?P)
              \<and> KNeighborsClassifier_predict ?m tie_query = Inr [0])
           \<or> (\<exists>pred_labels. mapE (gather (self_y ?m)) (neigh_ind tie_query) = Inr pred_labels
                 \<and> radius_probabilities ?m tie_query pred_labels = Inr (2, ?P)
                 \<and> RadiusNeighborsClassifier_predict ?m tie_query = Inr [0])"
    using r0 r1 r2 by blast
  have h3: "0 < length ?P" and h4: "list_all (\<lambda>x. x \<noteq> NaN) (?P ! 0)" by simp_all
  from predict_tie_lowest_label[OF h1 h2 h3 h4] obtain i where
    i: "i < length (?P ! 0)" "[0] ! 0 = self_classes ?m ! i"
    and lo: "\<forall>j < length (?P ! 0). j < length (self_classes ?m) \<longrightarrow> ?P ! 0 ! j = ?P ! 0 ! i
                   \<longrightarrow> self_classes ?m ! i \<le> self_classes ?m ! j"
    by blast
  have i2: "i < 2" using i(1) by simp
  then have "i = 0 \<or> i = 1" by auto
  then have same: "?P ! 0 ! 0 = ?P ! 0 ! i" "?P ! 0 ! 1 = ?P ! 0 ! i" by auto
  have cls: "self_classes ?m = [0, 1]" by (simp add: doc_fitted_def)
  have "self_classes ?m ! i \<le> self_classes ?m ! 0"
    using lo[rule_format, of 0] same(1) by (simp add: cls)
  moreover have "self_classes ?m ! i \<le> self_classes ?m ! 1"
    using lo[rule_format, of 1] same(2) by (simp add: cls)
  ultimately have "[0] ! 0 = [0, 1 :: int] ! i \<and> [0, 1 :: int] ! i \<le> 0 \<and> [0, 1 :: int] ! i \<le> 1"
    using i(2) by (simp add: cls)
  then show ?thesis using h1 k1 k2 r1 r2 i2 by blast
qed

subsection \<open>The vote\<close>

text \<open>
  Claim C3. For neighbour labels below \<open>C\<close> and weights of the same shape, the vote
  matrix of both classifiers (the loop over the columns at lines 186--187 for a
  rectangular matrix of labels, \<^verbatim>\<open>np.bincount\<close> and the padding at lines 358--366)
  has, for each row, the vector of length \<open>C\<close> whose entry at \<open>c\<close> is the sum of the
  weights of the neighbours labelled \<open>c\<close>, one summand for each occurrence; a row
  without neighbours is the zero vector of length \<open>C\<close>.
\<close>

theorem votes_sum_every_occurrence:
  assumes "list_all2 (\<lambda>ls ws. length ws = length ls) labels weights"
      and "list_all (list_all (\<lambda>l. l < C)) labels"
  shows "radius_votes C weights labels = Inr (map2 (\<lambda>ls ws. aggregate ls ws C) labels weights)
         \<and> (list_all (\<lambda>ls. length ls = ncols labels) labels
              \<longrightarrow> knn_votes C weights labels
                    = Inr (map2 (\<lambda>ls ws. aggregate ls ws C) labels weights))
         \<and> aggregate [] [] C = replicate C (Fin 0)
         \<and> (\<forall>ls ws. length (aggregate ls ws C) = C
               \<and> (\<forall>c < C. aggregate ls ws C ! c
                     = fsum (map snd (filter (\<lambda>lw. fst lw = c) (zip ls ws)))))"
proof -
  have n: "length weights = length labels"
    using assms(1) by (simp add: list_all2_lengthD)
  have w: "\<forall>r < length labels. length (weights ! r) = length (labels ! r)"
    using assms(1) by (simp add: list_all2_conv_all_nth)
  have m: "map (\<lambda>r. aggregate (labels ! r) (weights ! r) C) [0..<length labels]
             = map2 (\<lambda>ls ws. aggregate ls ws C) labels weights"
    using n by (intro nth_equalityI) simp_all
  have "radius_votes C weights labels = Inr (map2 (\<lambda>ls ws. aggregate ls ws C) labels weights)"
    using radius_votes_aggregate[OF n w assms(2)] m by simp
  moreover have "knn_votes C weights labels
                   = Inr (map2 (\<lambda>ls ws. aggregate ls ws C) labels weights)"
    if "list_all (\<lambda>ls. length ls = ncols labels) labels"
    using knn_votes_aggregate[OF n that w assms(2)] m by simp
  moreover have "aggregate [] [] C = replicate C (Fin 0)" by (rule aggregate_Nil)
  moreover have "\<forall>ls ws. length (aggregate ls ws C) = C
               \<and> (\<forall>c < C. aggregate ls ws C ! c
                     = fsum (map snd (filter (\<lambda>lw. fst lw = c) (zip ls ws))))"
    by (simp add: aggregate_nth label_weights_def)
  ultimately show ?thesis by blast
qed

theorem votes_sum_every_occurrence_witness:
  "list_all2 (\<lambda>ls ws. length ws = length ls) [[1, 0, 1], [2, 2, 2 :: nat]]
      [[Fin 1, Fin 2, Fin 3], [Fin 1, Fin 1, Fin 1]]
   \<and> list_all (list_all (\<lambda>l. l < 4)) [[1, 0, 1], [2, 2, 2 :: nat]]
   \<and> radius_votes 4 [[Fin 1, Fin 2, Fin 3], [Fin 1, Fin 1, Fin 1]] [[1, 0, 1], [2, 2, 2]]
       = Inr [[Fin 2, Fin 4, Fin 0, Fin 0], [Fin 0, Fin 0, Fin 3, Fin 0]]
   \<and> knn_votes 4 [[Fin 1, Fin 2, Fin 3], [Fin 1, Fin 1, Fin 1]] [[1, 0, 1], [2, 2, 2]]
       = Inr [[Fin 2, Fin 4, Fin 0, Fin 0], [Fin 0, Fin 0, Fin 3, Fin 0]]"
proof -
  let ?L = "[[1, 0, 1], [2, 2, 2 :: nat]]"
  let ?W = "[[Fin 1, Fin 2, Fin 3], [Fin 1, Fin 1, Fin 1]]"
  have h1: "list_all2 (\<lambda>ls ws. length ws = length ls) ?L ?W" by simp
  have h2: "list_all (list_all (\<lambda>l. l < 4)) ?L" by simp
  have h3: "list_all (\<lambda>ls. length ls = ncols ?L) ?L" by simp
  have a: "map2 (\<lambda>ls ws. aggregate ls ws 4) ?L ?W
             = [[Fin 2, Fin 4, Fin 0, Fin 0], [Fin 0, Fin 0, Fin 3, Fin 0]]"
    by (simp add: aggregate_def label_weights_def fsum_def upt_conv_Cons)
  from votes_sum_every_occurrence[OF h1 h2] h3 a
  have "radius_votes 4 ?W ?L = Inr [[Fin 2, Fin 4, Fin 0, Fin 0], [Fin 0, Fin 0, Fin 3, Fin 0]]"
    and "knn_votes 4 ?W ?L = Inr [[Fin 2, Fin 4, Fin 0, Fin 0], [Fin 0, Fin 0, Fin 3, Fin 0]]"
    by simp_all
  then show ?thesis using h1 h2 by blast
qed

subsection \<open>The posterior\<close>



text \<open>
  The rows of \<^verbatim>\<open>KNeighborsClassifier.predict_proba\<close> when every operation on
  finite values is the exact one (no rounding, no overflow, no underflow): with training
  labels below the number of classes and every class count positive, a prior vector of
  positive numbers, neighbour indices that form a matrix of positions of the training
  array, and finite weights that are not negative, every row whose votes are not all
  zero sums to 1 and has all its entries in \<open>[0, 1]\<close>. This is a statement about the
  formula, not about \<^verbatim>\<open>float64\<close>.
\<close>

lemma knn_predict_proba_distribution:
  assumes y: "self_y m \<noteq> []" "list_all (\<lambda>l. l < length (self_classes m)) (self_y m)"
      and cnt: "list_all (\<lambda>c. 0 < classCount (self_y m) c) [0..<length (self_classes m)]"
      and prior: "class_prior m = map Fin prior" "length prior = length (self_classes m)"
                 "list_all (\<lambda>p. 0 < p) prior"
      and ind: "list_all (list_all (\<lambda>j. j < length (self_y m))) (neigh_ind q)"
               "list_all (\<lambda>ind. length ind = ncols (neigh_ind q)) (neigh_ind q)"
      and w: "knn_weights (get_weights q) (neigh_ind q) = map (map Fin) w"
             "list_all2 (\<lambda>ind ws. length ws = length ind) (neigh_ind q) w"
             "list_all (list_all (\<lambda>x. 0 \<le> x)) w"
  shows "\<exists>V P. knn_votes (length (self_classes m)) (map (map Fin) w)
                  (map (map (\<lambda>j. self_y m ! j)) (neigh_ind q)) = Inr V
           \<and> KNeighborsClassifier_predict_proba m q = Inr (length (self_classes m), P)
           \<and> length V = length (neigh_ind q) \<and> length P = length (neigh_ind q)
           \<and> (\<forall>r < length (neigh_ind q). \<not> list_all (\<lambda>v. v = Fin 0) (V ! r)
                 \<longrightarrow> fsum (P ! r) = Fin 1
                     \<and> list_all (\<lambda>x. is_fin x \<and> 0 \<le> the_fin x \<and> the_fin x \<le> 1) (P ! r))"
proof -
  let ?C = "length (self_classes m)" and ?y = "self_y m" and ?ni = "neigh_ind q"
  let ?L = "map (map (\<lambda>j. ?y ! j)) ?ni"
  let ?votes = "map (\<lambda>r. agg_real (map (\<lambda>j. ?y ! j) (?ni ! r)) (w ! r) ?C) [0..<length ?ni]"
  have g: "mapE (gather ?y) ?ni = Inr ?L"
    and V: "knn_votes ?C (map (map Fin) w) ?L = Inr (map (map Fin) ?votes)"
    using knn_pipeline[OF y(2) ind w(2)] by simp_all
  have kw: "knn_weights (get_weights q) ?L = map (map Fin) w"
    using w(1) by (simp add: knn_weights_shape)
  have cnt': "list_all (\<lambda>c. 0 < count_list ?y c) [0..<?C]"
    using cnt by (simp add: classCount_def)
  have rows: "list_all (\<lambda>row. length row = ?C) ?votes" by (simp add: list_all_iff)
  from posterior_rows_formula[OF y(1,2) cnt' prior(2) rows] obtain P where
    p: "posterior ?y (map Fin prior) ?C (map (map Fin) ?votes) = Inr (?C, P)"
    and lP: "length P = length ?votes"
    and f: "\<forall>r < length ?votes.
                 sum_list (map (adjusted (?votes ! r) ?y prior) [0..<?C]) \<noteq> 0
                 \<longrightarrow> P ! r = map (\<lambda>c. Fin (probability (?votes ! r) ?y prior ?C c)) [0..<?C]"
    by blast
  have pp: "KNeighborsClassifier_predict_proba m q = Inr (?C, P)"
    unfolding KNeighborsClassifier_predict_proba_def by (simp only: g kw V p prior(1) sum.case)
  have "fsum (P ! r) = Fin 1
          \<and> list_all (\<lambda>x. is_fin x \<and> 0 \<le> the_fin x \<and> the_fin x \<le> 1) (P ! r)"
    if r: "r < length ?ni" and nz: "\<not> list_all (\<lambda>v. v = Fin 0) (map (map Fin) ?votes ! r)" for r
  proof -
    let ?v = "?votes ! r"
    let ?adj = "map (adjusted ?v ?y prior) [0..<?C]"
    have lw: "length w = length ?ni" using w(2) by (simp add: list_all2_lengthD)
    have vr: "?v = agg_real (map (\<lambda>j. ?y ! j) (?ni ! r)) (w ! r) ?C" using r by simp
    have "list_all (\<lambda>x. 0 \<le> x) (w ! r)" using w(3) r lw by (simp add: list_all_length)
    then have nn: "list_all (\<lambda>x. 0 \<le> x) ?v" unfolding vr by (rule agg_real_nonneg)
    have lv: "length ?v = ?C" unfolding vr by simp
    have "\<not> list_all (\<lambda>v. v = 0) ?v" using nz r by (simp add: list_all_iff)
    then have pos: "0 < sum_list ?adj"
      using adjusted_sum_pos[OF nn prior(3) lv prior(2) cnt'] by simp
    then have "P ! r = map (\<lambda>c. Fin (probability ?v ?y prior ?C c)) [0..<?C]"
      using f r by simp
    also have "\<dots> = map (\<lambda>x. Fin (x / sum_list ?adj)) ?adj"
      by (simp add: probability_def)
    finally have "P ! r = map (\<lambda>x. Fin (x / sum_list ?adj)) ?adj" .
    then show ?thesis
      using normalized_distribution[OF adjusted_nonneg[OF nn prior(3) lv prior(2)] pos] by simp
  qed
  then show ?thesis using V pp lP by auto
qed

lemma knn_predict_proba_distribution_example:
  "KNeighborsClassifier_predict_proba (doc_fitted [Fin (3/4), Fin (1/4)] None) knn_query
     = Inr (2, [[Fin (6/7), Fin (1/7)]])
   \<and> knn_votes 2 [[Fin 1, Fin 1, Fin 1]] [[0, 0, 1]] = Inr [[Fin 2, Fin 1]]
   \<and> \<not> list_all (\<lambda>v. v = Fin 0) [Fin 2, Fin 1]
   \<and> fsum [Fin (6/7), Fin (1/7)] = Fin 1
   \<and> list_all (\<lambda>x. is_fin x \<and> 0 \<le> the_fin x \<and> the_fin x \<le> 1) [Fin (6/7), Fin (1/7)]"
proof -
  let ?m = "doc_fitted [Fin (3/4), Fin (1/4)] None"
  have y: "self_y ?m \<noteq> []" "list_all (\<lambda>l. l < length (self_classes ?m)) (self_y ?m)"
    by (simp_all add: doc_fitted_def)
  have cnt: "list_all (\<lambda>c. 0 < classCount (self_y ?m) c) [0..<length (self_classes ?m)]"
    by (simp add: doc_fitted_def classCount_def upt_conv_Cons)
  have prior: "class_prior ?m = map Fin [3/4, 1/4]" "length [3/4, 1/4 :: real] = length (self_classes ?m)"
    "list_all (\<lambda>p. 0 < p) [3/4, 1/4 :: real]"
    by (simp_all add: doc_fitted_def)
  have ind: "list_all (list_all (\<lambda>j. j < length (self_y ?m))) (neigh_ind knn_query)"
    "list_all (\<lambda>ind. length ind = ncols (neigh_ind knn_query)) (neigh_ind knn_query)"
    by (simp_all add: doc_fitted_def knn_query_def)
  have w: "knn_weights (get_weights knn_query) (neigh_ind knn_query) = map (map Fin) [[1, 1, 1]]"
    "list_all2 (\<lambda>ind ws. length ws = length ind) (neigh_ind knn_query) [[1, 1, 1 :: real]]"
    "list_all (list_all (\<lambda>x. 0 \<le> x)) [[1, 1, 1 :: real]]"
    by (simp_all add: knn_query_def knn_weights_def)
  have v: "knn_votes (length (self_classes ?m)) (map (map Fin) [[1, 1, 1]])
             (map (map (\<lambda>j. self_y ?m ! j)) (neigh_ind knn_query)) = Inr [[Fin 2, Fin 1]]"
    by (simp add: doc_eval knn_query_def)
  have p: "KNeighborsClassifier_predict_proba ?m knn_query = Inr (2, [[Fin (6/7), Fin (1/7)]])"
    by (simp add: doc_eval knn_query_def)
  from knn_predict_proba_distribution[OF y cnt prior ind w] obtain V P where
    "knn_votes (length (self_classes ?m)) (map (map Fin) [[1, 1, 1]])
             (map (map (\<lambda>j. self_y ?m ! j)) (neigh_ind knn_query)) = Inr V"
    "KNeighborsClassifier_predict_proba ?m knn_query = Inr (length (self_classes ?m), P)"
    and f: "\<forall>r < length (neigh_ind knn_query). \<not> list_all (\<lambda>v. v = Fin 0) (V ! r)
                 \<longrightarrow> fsum (P ! r) = Fin 1
                     \<and> list_all (\<lambda>x. is_fin x \<and> 0 \<le> the_fin x \<and> the_fin x \<le> 1) (P ! r)"
    by blast
  then have VP: "V = [[Fin 2, Fin 1]]" "P = [[Fin (6/7), Fin (1/7)]]" using v p by simp_all
  have nz: "\<not> list_all (\<lambda>v. v = Fin 0) [Fin 2, Fin 1]" by simp
  have "fsum [Fin (6/7), Fin (1/7)] = Fin 1
        \<and> list_all (\<lambda>x. is_fin x \<and> 0 \<le> the_fin x \<and> the_fin x \<le> 1) [Fin (6/7), Fin (1/7)]"
    using f[rule_format, of 0] nz by (simp add: VP knn_query_def)
  moreover have "knn_votes 2 [[Fin 1, Fin 1, Fin 1]] [[0, 0, 1]] = Inr [[Fin 2, Fin 1]]"
    using v by (simp add: doc_fitted_def knn_query_def numeral_2_eq_2)
  ultimately show ?thesis using p nz by blast
qed

subsection \<open>The default prior\<close>

text \<open>
  The default prior when every operation on finite values is the exact one: the division
  by the class counts and the multiplication by the prior cancel up to the common factor
  \<open>1 / n_train\<close>, which the division by the row sum removes, so the rows are those of
  plain normalized voting, \<open>votes[c] / sum(votes)\<close>. This is a statement about the
  formula, not about \<^verbatim>\<open>float64\<close>.
\<close>

lemma default_prior_is_plain_voting:
  assumes y: "self_y m \<noteq> []" "list_all (\<lambda>l. l < length (self_classes m)) (self_y m)"
      and cnt: "list_all (\<lambda>c. 0 < classCount (self_y m) c) [0..<length (self_classes m)]"
      and prior: "class_prior m = default_class_prior (self_y m) (length (self_classes m))"
      and ind: "list_all (list_all (\<lambda>j. j < length (self_y m))) (neigh_ind q)"
               "list_all (\<lambda>ind. length ind = ncols (neigh_ind q)) (neigh_ind q)"
      and w: "knn_weights (get_weights q) (neigh_ind q) = map (map Fin) w"
             "list_all2 (\<lambda>ind ws. length ws = length ind) (neigh_ind q) w"
  shows "(\<exists>V. knn_votes (length (self_classes m)) (map (map Fin) w)
                  (map (map (\<lambda>j. self_y m ! j)) (neigh_ind q)) = Inr V
            \<and> KNeighborsClassifier_predict_proba m q
                = Inr (length (self_classes m), map plain_probability V)
            \<and> KNeighborsClassifier_predict m q
                = argmax_classes (self_classes m) (length (self_classes m), map plain_probability V))
         \<and> (\<forall>pred_labels V.
               radius_votes (length (self_classes m)) (radius_weights q) pred_labels = Inr V
                 \<and> list_all (list_all is_fin) V
               \<longrightarrow> radius_probabilities m q pred_labels
                     = Inr (length (self_classes m), map plain_probability V))"
proof -
  let ?C = "length (self_classes m)" and ?y = "self_y m" and ?ni = "neigh_ind q"
  let ?L = "map (map (\<lambda>j. ?y ! j)) ?ni"
  let ?votes = "map (\<lambda>r. agg_real (map (\<lambda>j. ?y ! j) (?ni ! r)) (w ! r) ?C) [0..<length ?ni]"
  let ?V = "map (map Fin) ?votes"
  have cnt': "list_all (\<lambda>c. 0 < count_list ?y c) [0..<?C]"
    using cnt by (simp add: classCount_def)
  have g: "mapE (gather ?y) ?ni = Inr ?L"
    and V: "knn_votes ?C (map (map Fin) w) ?L = Inr ?V"
    using knn_pipeline[OF y(2) ind w(2)] by simp_all
  have kw: "knn_weights (get_weights q) ?L = map (map Fin) w"
    using w(1) by (simp add: knn_weights_shape)
  have rows: "list_all (\<lambda>row. length row = ?C) ?V" by (simp add: list_all_iff)
  have fin: "list_all (list_all is_fin) ?V" by (simp add: list_all_iff)
  have p: "posterior ?y (class_prior m) ?C ?V = Inr (?C, map plain_probability ?V)"
    unfolding prior using y cnt' rows fin by (rule posterior_default_prior)
  have pp: "KNeighborsClassifier_predict_proba m q = Inr (?C, map plain_probability ?V)"
    unfolding KNeighborsClassifier_predict_proba_def by (simp only: g kw V p sum.case)
  have pr: "KNeighborsClassifier_predict m q
              = argmax_classes (self_classes m) (?C, map plain_probability ?V)"
    unfolding KNeighborsClassifier_predict_def by (simp only: pp sum.case)
  have rad: "radius_probabilities m q pl = Inr (?C, map plain_probability U)"
    if "radius_votes ?C (radius_weights q) pl = Inr U" "list_all (list_all is_fin) U" for pl U
  proof -
    have "posterior ?y (class_prior m) ?C U = Inr (?C, map plain_probability U)"
      unfolding prior
      using y cnt' radius_votes_row_length[OF that(1)] that(2) by (rule posterior_default_prior)
    then show ?thesis by (simp add: radius_probabilities_def that(1))
  qed
  show ?thesis using V pp pr rad by blast
qed

lemma default_prior_is_plain_voting_example:
  "default_class_prior [0, 0, 1, 1] 2 = [Fin (1/2), Fin (1/2)]
   \<and> knn_votes 2 [[Fin 1, Fin 1, Fin 1]] [[0, 0, 1]] = Inr [[Fin 2, Fin 1]]
   \<and> plain_probability [Fin 2, Fin 1] = [Fin (2/3), Fin (1/3)]
   \<and> KNeighborsClassifier_predict_proba (doc_fitted (default_class_prior [0, 0, 1, 1] 2) None) knn_query
       = Inr (2, [plain_probability [Fin 2, Fin 1]])
   \<and> KNeighborsClassifier_predict (doc_fitted (default_class_prior [0, 0, 1, 1] 2) None) knn_query
       = Inr [0]"
proof -
  let ?m = "doc_fitted (default_class_prior [0, 0, 1, 1] 2) None"
  have y: "self_y ?m \<noteq> []" "list_all (\<lambda>l. l < length (self_classes ?m)) (self_y ?m)"
    by (simp_all add: doc_fitted_def)
  have cnt: "list_all (\<lambda>c. 0 < classCount (self_y ?m) c) [0..<length (self_classes ?m)]"
    by (simp add: doc_fitted_def classCount_def upt_conv_Cons)
  have prior: "class_prior ?m = default_class_prior (self_y ?m) (length (self_classes ?m))"
    by (simp add: doc_fitted_def numeral_2_eq_2)
  have ind: "list_all (list_all (\<lambda>j. j < length (self_y ?m))) (neigh_ind knn_query)"
    "list_all (\<lambda>ind. length ind = ncols (neigh_ind knn_query)) (neigh_ind knn_query)"
    by (simp_all add: doc_fitted_def knn_query_def)
  have w: "knn_weights (get_weights knn_query) (neigh_ind knn_query) = map (map Fin) [[1, 1, 1]]"
    "list_all2 (\<lambda>ind ws. length ws = length ind) (neigh_ind knn_query) [[1, 1, 1 :: real]]"
    by (simp_all add: knn_query_def knn_weights_def)
  have v: "knn_votes (length (self_classes ?m)) (map (map Fin) [[1, 1, 1]])
             (map (map (\<lambda>j. self_y ?m ! j)) (neigh_ind knn_query)) = Inr [[Fin 2, Fin 1]]"
    by (simp add: doc_eval knn_query_def)
  have d: "default_class_prior [0, 0, 1, 1] 2 = [Fin (1/2), Fin (1/2)]"
    by (simp add: default_class_prior_def upt_conv_Cons)
  have pl: "plain_probability [Fin 2, Fin 1] = [Fin (2/3), Fin (1/3)]"
    by (simp add: plain_probability_def fsum_def)
  have a: "argmax_classes (self_classes ?m) (2, [[Fin (2/3), Fin (1/3)]]) = Inr [0]"
    by (simp add: doc_eval)
  from default_prior_is_plain_voting[OF y cnt prior ind w, THEN conjunct1] obtain V where
    "knn_votes (length (self_classes ?m)) (map (map Fin) [[1, 1, 1]])
             (map (map (\<lambda>j. self_y ?m ! j)) (neigh_ind knn_query)) = Inr V"
    and pp: "KNeighborsClassifier_predict_proba ?m knn_query
               = Inr (length (self_classes ?m), map plain_probability V)"
    and pr: "KNeighborsClassifier_predict ?m knn_query
               = argmax_classes (self_classes ?m) (length (self_classes ?m), map plain_probability V)"
    by blast
  then have V: "V = [[Fin 2, Fin 1]]" using v by simp
  have c2: "length (self_classes ?m) = 2" by (simp add: doc_fitted_def)
  have "KNeighborsClassifier_predict_proba ?m knn_query = Inr (2, [plain_probability [Fin 2, Fin 1]])"
    using pp by (simp only: V c2 list.map)
  moreover have "KNeighborsClassifier_predict ?m knn_query = Inr [0]"
    using pr a by (simp only: V c2 list.map pl)
  moreover have "knn_votes 2 [[Fin 1, Fin 1, Fin 1]] [[0, 0, 1]] = Inr [[Fin 2, Fin 1]]"
    using v by (simp add: doc_fitted_def knn_query_def numeral_2_eq_2)
  ultimately show ?thesis using d pl by blast
qed

end
